theory Spec2Isabelle
  imports Main
begin

section \<open>The flag registry (pflag)\<close>

text \<open>
  A flag of the registry as \<^verbatim>\<open>cmd/root.go\<close> reads it: \<^verbatim>\<open>f.Name\<close>,
  \<^verbatim>\<open>f.DefValue\<close>, \<^verbatim>\<open>f.Value\<close> and \<^verbatim>\<open>f.Changed\<close>. Values are kept in
  their string encoding, as the spec's data model has them.
\<close>

record Flag =
  Name :: string
  DefValue :: string
  Value :: string
  Changed :: bool

type_synonym FlagSet = "Flag list"

text \<open>The flag a name denotes in the registry (the registry holds one flag per name).\<close>

definition lookupFlag :: "FlagSet \<Rightarrow> string \<Rightarrow> Flag option" where
  "lookupFlag fs n = find (\<lambda>f. Name f = n) fs"

text \<open>
  Modelled from the spec: \<^verbatim>\<open>flags.Set(name, value)\<close> belongs to the flag library, which
  is not part of \<^verbatim>\<open>cmd/root.go\<close>. The spec (4.4, step 3) has the write-back store the
  value into the option's current value and mark the option as changed. A name the
  registry does not hold is an error that \<^verbatim>\<open>initFlags\<close> ignores: nothing is written.
\<close>

fun flags_Set :: "string \<Rightarrow> string \<Rightarrow> FlagSet \<Rightarrow> FlagSet" where
  "flags_Set n v [] = []"
| "flags_Set n v (f # fs) =
     (if Name f = n then f\<lparr>Value := v, Changed := True\<rparr> # fs else f # flags_Set n v fs)"

section \<open>Strings\<close>

text \<open>\<^verbatim>\<open>strings.ToUpper\<close> on ASCII letters.\<close>

definition upper_char :: "char \<Rightarrow> char" where
  "upper_char c =
     (case map_of (zip ''abcdefghijklmnopqrstuvwxyz'' ''ABCDEFGHIJKLMNOPQRSTUVWXYZ'') c of
        Some d \<Rightarrow> d
      | None \<Rightarrow> c)"

definition strings_ToUpper :: "string \<Rightarrow> string" where
  "strings_ToUpper s = map upper_char s"

text \<open>
  \<^verbatim>\<open>strings.NewReplacer(old, new)\<close> for one-byte \<^verbatim>\<open>old\<close> and \<^verbatim>\<open>new\<close>: the
  replacer is the list of its pairs, and \<^verbatim>\<open>Replace\<close> maps every byte that has a pair.
\<close>

type_synonym Replacer = "(char \<times> char) list"

definition Replace :: "Replacer \<Rightarrow> string \<Rightarrow> string" where
  "Replace r s = map (\<lambda>c. case map_of r c of Some d \<Rightarrow> d | None \<Rightarrow> c) s"

fun strings_Join :: "string list \<Rightarrow> string \<Rightarrow> string" where
  "strings_Join [] sep = []"
| "strings_Join [x] sep = x"
| "strings_Join (x # y # xs) sep = x @ sep @ strings_Join (y # xs) sep"

section \<open>The configuration store (viper)\<close>

text \<open>
  The process-wide store: the settings \<^verbatim>\<open>initEnv\<close> and \<^verbatim>\<open>initConfig\<close> make, the
  names of the flags bound to it, the values loaded from the configuration file and the
  registered defaults.
\<close>

record Viper =
  automaticEnvApplied :: bool
  envPrefix :: string
  envKeyReplacer :: "Replacer option"
  v_configFile :: string
  v_configPaths :: "string list"
  v_configName :: string
  v_configType :: string
  config :: "string \<rightharpoonup> string"
  defaults :: "string \<rightharpoonup> string"
  pflags :: "string list"

definition viper_New :: Viper where
  "viper_New = \<lparr>automaticEnvApplied = False, envPrefix = [], envKeyReplacer = None,
     v_configFile = [], v_configPaths = [], v_configName = ''config'', v_configType = [],
     config = Map.empty, defaults = Map.empty, pflags = []\<rparr>"

definition AutomaticEnv :: "Viper \<Rightarrow> Viper" where
  "AutomaticEnv v = v\<lparr>automaticEnvApplied := True\<rparr>"

definition SetEnvPrefix :: "string \<Rightarrow> Viper \<Rightarrow> Viper" where
  "SetEnvPrefix p v = v\<lparr>envPrefix := p\<rparr>"

definition SetEnvKeyReplacer :: "Replacer \<Rightarrow> Viper \<Rightarrow> Viper" where
  "SetEnvKeyReplacer r v = v\<lparr>envKeyReplacer := Some r\<rparr>"

definition SetConfigFile :: "string \<Rightarrow> Viper \<Rightarrow> Viper" where
  "SetConfigFile p v = v\<lparr>v_configFile := p\<rparr>"

definition AddConfigPath :: "string \<Rightarrow> Viper \<Rightarrow> Viper" where
  "AddConfigPath p v = v\<lparr>v_configPaths := v_configPaths v @ [p]\<rparr>"

definition SetConfigName :: "string \<Rightarrow> Viper \<Rightarrow> Viper" where
  "SetConfigName n v = v\<lparr>v_configName := n\<rparr>"

definition SetConfigType :: "string \<Rightarrow> Viper \<Rightarrow> Viper" where
  "SetConfigType t v = v\<lparr>v_configType := t\<rparr>"

definition SetDefault :: "string \<Rightarrow> string \<Rightarrow> Viper \<Rightarrow> Viper" where
  "SetDefault k d v = v\<lparr>defaults := (defaults v)(k \<mapsto> d)\<rparr>"

definition BindPFlags :: "FlagSet \<Rightarrow> Viper \<Rightarrow> Viper" where
  "BindPFlags fs v = v\<lparr>pflags := pflags v @ map Name fs\<rparr>"

text \<open>
  Modelled from the spec: the store's derivation of an environment variable's name is
  inside the configuration library, not in \<^verbatim>\<open>cmd/root.go\<close>. The spec (4.3) prefixes the
  option's name with the application prefix, in upper case, looks names up without regard
  to their case, and transliterates with the key replacer.
\<close>

definition mergeWithEnvPrefix :: "Viper \<Rightarrow> string \<Rightarrow> string" where
  "mergeWithEnvPrefix v k = strings_ToUpper (envPrefix v @ ''_'' @ k)"

definition envVarName :: "Viper \<Rightarrow> string \<Rightarrow> string" where
  "envVarName v k =
     (case envKeyReplacer v of
        None \<Rightarrow> mergeWithEnvPrefix v k
      | Some r \<Rightarrow> Replace r (mergeWithEnvPrefix v k))"

definition getEnv :: "Viper \<Rightarrow> (string \<rightharpoonup> string) \<Rightarrow> string \<Rightarrow> string option" where
  "getEnv v environ k = (if automaticEnvApplied v then environ (envVarName v k) else None)"

text \<open>
  Modelled from the spec: the store's lookup is inside the configuration library, not in
  \<^verbatim>\<open>cmd/root.go\<close>. The spec (4.4, step 2) gives its order, highest first: the value of
  a bound flag that was set on the command line; an environment variable of the matching
  name; a value loaded from the configuration file; the registered default.
  \<^verbatim>\<open>GetString\<close> is the empty string when no layer has the key.
\<close>

definition viper_layers :: "Viper \<Rightarrow> (string \<rightharpoonup> string) \<Rightarrow> string \<Rightarrow> string option" where
  "viper_layers v environ k =
     (case getEnv v environ k of
        Some e \<Rightarrow> Some e
      | None \<Rightarrow> (case config v k of Some c \<Rightarrow> Some c | None \<Rightarrow> defaults v k))"

definition viper_find :: "Viper \<Rightarrow> (string \<rightharpoonup> string) \<Rightarrow> FlagSet \<Rightarrow> string \<Rightarrow> string option" where
  "viper_find v environ fs k =
     (case (if k \<in> set (pflags v) then lookupFlag fs k else None) of
        Some f \<Rightarrow> if Changed f then Some (Value f) else viper_layers v environ k
      | None \<Rightarrow> viper_layers v environ k)"

definition GetString :: "Viper \<Rightarrow> (string \<rightharpoonup> string) \<Rightarrow> FlagSet \<Rightarrow> string \<Rightarrow> string" where
  "GetString v environ fs k = (case viper_find v environ fs k of Some x \<Rightarrow> x | None \<Rightarrow> [])"

section \<open>The logger (logrus)\<close>

datatype Level = PanicLevel | FatalLevel | ErrorLevel | WarnLevel | InfoLevel | DebugLevel | TraceLevel

text \<open>
  An entry handed to the logger: its level, its message and its fields. The log of the
  model holds every entry \<^verbatim>\<open>cmd/root.go\<close> hands over, in order; which of them the
  logger prints at its configured level is the logger's business.
\<close>

record Entry =
  level :: Level
  message :: string
  data :: "(string \<times> string) list"

section \<open>The process\<close>

text \<open>
  What the code reads from outside: the command line as given, the environment, the
  home directory (\<open>Inl\<close> the error when \<^verbatim>\<open>homedir.Dir\<close> fails), the files on disk,
  and the logger's \<^verbatim>\<open>ParseLevel\<close> (\<open>Inl\<close> the error for a level it does not know).
\<close>

datatype FileState = Absent | Unreadable | Malformed | Parses "(string \<times> string) list"

record Host =
  Args :: "string list"
  Environ :: "string \<rightharpoonup> string"
  HomeDir :: "string + string"
  Files :: "string \<Rightarrow> FileState"
  ParseLevel :: "string \<Rightarrow> string + Level"

record ConfigOptions =
  ConfigFile :: string
  LogLevel :: string

text \<open>
  The state the code changes: the store, the flags of the running command, the log, the
  logger's level, and the calls of \<^verbatim>\<open>flags.Set\<close> made so far (name and value), which
  are the writes into the registry.
\<close>

record Process =
  viper :: Viper
  flags :: FlagSet
  logged :: "Entry list"
  loggerLevel :: Level
  setCalls :: "(string \<times> string) list"

text \<open>
  A step either leaves the process running (\<open>Inr\<close>) or ends it (\<open>Inl\<close>) with an exit
  status and the state it ended in.
\<close>

type_synonym Outcome = "(nat \<times> Process) + Process"

definition logger_Log :: "Level \<Rightarrow> string \<Rightarrow> (string \<times> string) list \<Rightarrow> Process \<Rightarrow> Process" where
  "logger_Log l m fs p = p\<lparr>logged := logged p @ [\<lparr>level = l, message = m, data = fs\<rparr>]\<rparr>"

text \<open>\<^verbatim>\<open>Fatal\<close> logs the entry and exits with status 1.\<close>

definition logger_Fatal :: "string \<Rightarrow> (string \<times> string) list \<Rightarrow> Process \<Rightarrow> Outcome" where
  "logger_Fatal m fs p = Inl (1, logger_Log FatalLevel m fs p)"

definition andThen :: "Outcome \<Rightarrow> (Process \<Rightarrow> Outcome) \<Rightarrow> Outcome" where
  "andThen r k = (case r of Inl e \<Rightarrow> Inl e | Inr p \<Rightarrow> k p)"

text \<open>
  Modelled from the spec: reading the configuration file is inside the configuration
  library, not in \<^verbatim>\<open>cmd/root.go\<close>. The spec (4.2, 7) has an explicit path used
  verbatim, and otherwise the default location (directory, base name and content type);
  a file that parses populates the store; a file that is absent is "not found" only when
  no explicit path was given; every other failure is an error of another kind.
\<close>

datatype ReadError = ConfigFileNotFoundError | OtherError string

definition configCandidates :: "Viper \<Rightarrow> string list" where
  "configCandidates v =
     map (\<lambda>d. d @ ''/'' @ v_configName v @ ''.'' @ v_configType v) (v_configPaths v)"

definition loadFile :: "Viper \<Rightarrow> (string \<Rightarrow> FileState) \<Rightarrow> string \<Rightarrow> ReadError + Viper" where
  "loadFile v files path =
     (case files path of
        Parses kv \<Rightarrow> Inr (v\<lparr>v_configFile := path, config := map_of kv\<rparr>)
      | Malformed \<Rightarrow> Inl (OtherError ''malformed configuration file'')
      | Unreadable \<Rightarrow> Inl (OtherError ''unreadable configuration file'')
      | Absent \<Rightarrow> Inl (OtherError ''no such file''))"

definition ReadInConfig :: "Viper \<Rightarrow> (string \<Rightarrow> FileState) \<Rightarrow> ReadError + Viper" where
  "ReadInConfig v files =
     (if v_configFile v \<noteq> [] then loadFile v files (v_configFile v)
      else (case find (\<lambda>p. files p \<noteq> Absent) (configCandidates v) of
              None \<Rightarrow> Inl ConfigFileNotFoundError
            | Some p \<Rightarrow> loadFile v files p))"

definition ConfigFileUsed :: "Viper \<Rightarrow> string" where
  "ConfigFileUsed v = v_configFile v"

definition filepath_Join :: "string \<Rightarrow> string \<Rightarrow> string" where
  "filepath_Join a b = a @ ''/'' @ b"

section \<open>cmd/root.go\<close>

definition configName :: string where
  "configName = ''config''"

definition configDir :: string where
  "configDir = ''.falcoctl''"

text \<open>
  \<^verbatim>\<open>validateConfig\<close>. \<^verbatim>\<open>ConfigOptions.Validate\<close> is a parameter: it returns
  \<open>None\<close> for Go's \<^verbatim>\<open>nil\<close> and \<open>Some errs\<close> for a list of errors (their texts).
\<close>

definition validateConfig ::
  "(ConfigOptions \<Rightarrow> string list option) \<Rightarrow> ConfigOptions \<Rightarrow> Process \<Rightarrow> Outcome" where
  "validateConfig Validate configOptions p =
     (case Validate configOptions of
        None \<Rightarrow> Inr p
      | Some errs \<Rightarrow>
          logger_Fatal ''exiting for validation errors'' []
            (fold (\<lambda>err. logger_Log ErrorLevel ''error validating config options'' [(''error'', err)])
               errs p))"

definition initEnv :: "Viper \<Rightarrow> Viper" where
  "initEnv v = SetEnvKeyReplacer [(CHR ''-'', CHR ''_'')] (SetEnvPrefix ''falcoctl'' (AutomaticEnv v))"

definition initLogger :: "Host \<Rightarrow> string \<Rightarrow> Process \<Rightarrow> Outcome" where
  "initLogger h logLevel p =
     (case ParseLevel h logLevel of
        Inl err \<Rightarrow> logger_Fatal err [] p
      | Inr lvl \<Rightarrow> Inr (p\<lparr>loggerLevel := lvl\<rparr>))"

definition initConfig :: "Host \<Rightarrow> string \<Rightarrow> Process \<Rightarrow> Outcome" where
  "initConfig h cf p =
     andThen
       (if cf \<noteq> [] then Inr (p\<lparr>viper := SetConfigFile cf (viper p)\<rparr>)
        else (case HomeDir h of
                Inl err \<Rightarrow> logger_Fatal ''error getting the home directory'' [(''error'', err)] p
              | Inr home \<Rightarrow>
                  Inr (p\<lparr>viper :=
                    SetConfigType ''yaml''
                      (SetConfigName configName
                        (AddConfigPath (filepath_Join home configDir) (viper p)))\<rparr>)))
       (\<lambda>p. case ReadInConfig (viper p) (Files h) of
              Inr v \<Rightarrow>
                Inr (logger_Log InfoLevel ''using config file'' [(''file'', ConfigFileUsed v)]
                       (p\<lparr>viper := v\<rparr>))
            | Inl ConfigFileNotFoundError \<Rightarrow>
                Inr (logger_Log DebugLevel ''running without a configuration file'' [] p)
            | Inl (OtherError err) \<Rightarrow>
                logger_Fatal ''error running with config file''
                  [(''file'', ConfigFileUsed (viper p)), (''error'', err)] p)"

text \<open>
  \<^verbatim>\<open>exclude[f.Name]\<close> on a Go \<^verbatim>\<open>map[string]bool\<close>: a missing key reads as
  \<^verbatim>\<open>false\<close>.
\<close>

definition excluded :: "(string \<rightharpoonup> bool) \<Rightarrow> string \<Rightarrow> bool" where
  "excluded exclude n = (case exclude n of Some b \<Rightarrow> b | None \<Rightarrow> False)"

text \<open>The call \<^verbatim>\<open>flags.Set(name, v)\<close>, recorded as a write into the registry.\<close>

definition callSet :: "string \<Rightarrow> string \<Rightarrow> Process \<Rightarrow> Process" where
  "callSet n v p = p\<lparr>flags := flags_Set n v (flags p), setCalls := setCalls p @ [(n, v)]\<rparr>"

text \<open>
  \<^verbatim>\<open>flags.VisitAll\<close> hands the callback a reference to each flag of the registry, in
  the registry's order; the callback reads the flag as it is at that moment.
\<close>

definition VisitAll :: "(Flag \<Rightarrow> Process \<Rightarrow> Process) \<Rightarrow> Process \<Rightarrow> Process" where
  "VisitAll fn p =
     fold (\<lambda>n q. case lookupFlag (flags q) n of None \<Rightarrow> q | Some f \<Rightarrow> fn f q)
       (map Name (flags p)) p"

text \<open>The callback of \<^verbatim>\<open>initFlags\<close> (lines 180 to 188).\<close>

definition initFlags_visit :: "(string \<rightharpoonup> string) \<Rightarrow> (string \<rightharpoonup> bool) \<Rightarrow> Flag \<Rightarrow> Process \<Rightarrow> Process" where
  "initFlags_visit environ exclude f p =
     (if excluded exclude (Name f) then p
      else
        (let p1 = p\<lparr>viper := SetDefault (Name f) (DefValue f) (viper p)\<rparr>;
             v = GetString (viper p1) environ (flags p1) (Name f)
         in if v \<noteq> DefValue f then callSet (Name f) v p1 else p1))"

definition initFlags :: "(string \<rightharpoonup> string) \<Rightarrow> (string \<rightharpoonup> bool) \<Rightarrow> Process \<Rightarrow> Process" where
  "initFlags environ exclude p =
     VisitAll (initFlags_visit environ exclude) (p\<lparr>viper := BindPFlags (flags p) (viper p)\<rparr>)"

text \<open>
  \<^verbatim>\<open>logger.Fields\<close> is a Go map: assigning to a key that is present replaces its
  value.
\<close>

fun Fields_assign :: "string \<Rightarrow> string \<Rightarrow> (string \<times> string) list \<Rightarrow> (string \<times> string) list" where
  "Fields_assign k v [] = [(k, v)]"
| "Fields_assign k v (kv # m) = (if fst kv = k then (k, v) # m else kv # Fields_assign k v m)"

definition debugFlags_fields :: "FlagSet \<Rightarrow> (string \<times> string) list" where
  "debugFlags_fields fs =
     fold (\<lambda>f m. if Changed f then Fields_assign (Name f) (Value f) m else m) fs []"

definition debugFlags :: "Process \<Rightarrow> Process" where
  "debugFlags p = logger_Log DebugLevel ''running with options'' (debugFlags_fields (flags p)) p"

text \<open>The exclusion map that \<^verbatim>\<open>New\<close> passes to \<^verbatim>\<open>initFlags\<close> (lines 54 to 60).\<close>

definition New_exclude :: "string \<rightharpoonup> bool" where
  "New_exclude =
     [''config'' \<mapsto> True, ''loglevel'' \<mapsto> True, ''help'' \<mapsto> True, ''registryurl'' \<mapsto> False]"

text \<open>\<^verbatim>\<open>PersistentPreRun\<close> of the root command (lines 41 to 63).\<close>

definition PersistentPreRun ::
  "(ConfigOptions \<Rightarrow> string list option) \<Rightarrow> Host \<Rightarrow> ConfigOptions \<Rightarrow> Process \<Rightarrow> Outcome" where
  "PersistentPreRun Validate h configOptions p =
     andThen (validateConfig Validate configOptions p) (\<lambda>p.
     andThen (initLogger h (LogLevel configOptions) p) (\<lambda>p.
     andThen
       (initConfig h (ConfigFile configOptions)
          (logger_Log DebugLevel (''running with args: '' @ strings_Join (Args h) '' '') [] p))
       (\<lambda>p.
          Inr (debugFlags
                 (initFlags (Environ h) New_exclude (p\<lparr>viper := initEnv (viper p)\<rparr>))))))"

section \<open>The signal-aware context\<close>

text \<open>
  \<^verbatim>\<open>WithSignals\<close> (lines 92 to 113) as a state machine over the events that can
  happen to it. The state: the parent context and the derived context, the channel
  \<^verbatim>\<open>sigCh\<close> (buffered, capacity 1), the background task (blocked in its
  \<^verbatim>\<open>select\<close>, or returned), and the lines the task has logged.
\<close>

datatype Signal = Interrupt | SIGTERM

datatype CtxState = Active | Cancelled

datatype TaskState = Blocked | Exited

record SignalContext =
  parent :: CtxState
  ctx :: CtxState
  sigCh :: "Signal list"
  task :: TaskState
  infos :: "string list"

text \<open>
  The derived context is created from the parent: it is cancelled from the start when the
  parent already is.
\<close>

definition WithSignals :: "CtxState \<Rightarrow> SignalContext" where
  "WithSignals parentState =
     \<lparr>parent = parentState, ctx = parentState, sigCh = [], task = Blocked, infos = []\<rparr>"

definition received :: "Signal \<Rightarrow> string" where
  "received s = (case s of Interrupt \<Rightarrow> ''received SIGINT'' | SIGTERM \<Rightarrow> ''received SIGTERM'')"

text \<open>
  The events: the owner cancels the parent context (which cancels the derived one); the
  operating system delivers one of the two signals registered with \<^verbatim>\<open>signal.Notify\<close>,
  which is put into \<^verbatim>\<open>sigCh\<close> when the channel has room and dropped otherwise; the
  task's \<^verbatim>\<open>select\<close> takes the branch \<^verbatim>\<open><-ctx.Done()\<close>, or the branch
  \<^verbatim>\<open><-sigCh\<close>. Either branch returns, and the deferred \<^verbatim>\<open>cancel()\<close> runs.
\<close>

datatype Event = ParentCancel | Deliver Signal | SelectDone | SelectSignal

fun step :: "Event \<Rightarrow> SignalContext \<Rightarrow> SignalContext" where
  "step ParentCancel s = s\<lparr>parent := Cancelled, ctx := Cancelled\<rparr>"
| "step (Deliver sg) s = (if length (sigCh s) < 1 then s\<lparr>sigCh := sigCh s @ [sg]\<rparr> else s)"
| "step SelectDone s =
     (if task s = Blocked \<and> ctx s = Cancelled then s\<lparr>task := Exited, ctx := Cancelled\<rparr> else s)"
| "step SelectSignal s =
     (if task s = Blocked then
        (case sigCh s of
           [] \<Rightarrow> s
         | sg # rest \<Rightarrow>
             s\<lparr>sigCh := rest, infos := infos s @ [received sg], task := Exited, ctx := Cancelled\<rparr>)
      else s)"

definition run :: "Event list \<Rightarrow> SignalContext \<Rightarrow> SignalContext" where
  "run es s = fold step es s"

section \<open>Notions used in the statements\<close>

text \<open>
  A flag as command-line parsing leaves it: its value is its default unless the command
  line set it.
\<close>

definition parsed_flag :: "Flag \<Rightarrow> bool" where
  "parsed_flag f = (Changed f \<or> Value f = DefValue f)"

text \<open>
  The value the store returns for a flag once its default is registered, and the flag
  that the callback of \<^verbatim>\<open>initFlags\<close> leaves behind: both are proved below to be what
  the code computes.
\<close>

definition resolved_value :: "Viper \<Rightarrow> (string \<rightharpoonup> string) \<Rightarrow> Flag \<Rightarrow> string" where
  "resolved_value v environ f =
     (if Name f \<in> set (pflags v) \<and> Changed f then Value f
      else (case getEnv v environ (Name f) of
              Some e \<Rightarrow> e
            | None \<Rightarrow> (case config v (Name f) of Some c \<Rightarrow> c | None \<Rightarrow> DefValue f)))"

definition visited :: "Viper \<Rightarrow> (string \<rightharpoonup> string) \<Rightarrow> (string \<rightharpoonup> bool) \<Rightarrow> Flag \<Rightarrow> Flag" where
  "visited v environ exclude f =
     (if excluded exclude (Name f) then f
      else if resolved_value v environ f \<noteq> DefValue f
           then f\<lparr>Value := resolved_value v environ f, Changed := True\<rparr>
           else f)"

definition writes :: "Viper \<Rightarrow> (string \<rightharpoonup> string) \<Rightarrow> (string \<rightharpoonup> bool) \<Rightarrow> Flag \<Rightarrow> (string \<times> string) list" where
  "writes v environ exclude f =
     (if excluded exclude (Name f) then []
      else if resolved_value v environ f \<noteq> DefValue f
           then [(Name f, resolved_value v environ f)]
           else [])"

section \<open>A concrete invocation\<close>

text \<open>
  A registry with the three flags of the root command and four flags of a subcommand; the
  command line set \<^verbatim>\<open>--loglevel debug\<close> and \<^verbatim>\<open>--output json\<close>. The environment
  and the configuration file have entries for excluded and for other flags.
\<close>

definition ex_flags :: FlagSet where
  "ex_flags =
     [\<lparr>Name = ''config'', DefValue = [], Value = [], Changed = False\<rparr>,
      \<lparr>Name = ''help'', DefValue = ''false'', Value = ''false'', Changed = False\<rparr>,
      \<lparr>Name = ''loglevel'', DefValue = ''info'', Value = ''debug'', Changed = True\<rparr>,
      \<lparr>Name = ''namespace'', DefValue = ''falco'', Value = ''falco'', Changed = False\<rparr>,
      \<lparr>Name = ''output'', DefValue = ''text'', Value = ''json'', Changed = True\<rparr>,
      \<lparr>Name = ''registry-url'', DefValue = [], Value = [], Changed = False\<rparr>,
      \<lparr>Name = ''timeout'', DefValue = ''30'', Value = ''30'', Changed = False\<rparr>]"

definition ex_environ :: "string \<rightharpoonup> string" where
  "ex_environ =
     [''FALCOCTL_CONFIG'' \<mapsto> ''/tmp/c.yaml'',
      ''FALCOCTL_OUTPUT'' \<mapsto> ''yaml'',
      ''FALCOCTL_REGISTRY_URL'' \<mapsto> ''https://example.test'']"

definition ex_file :: "(string \<times> string) list" where
  "ex_file =
     [(''config'', ''/etc/c.yaml''), (''namespace'', ''prod''), (''registry-url'', ''file.test'')]"

definition ex_process :: Process where
  "ex_process =
     \<lparr>viper = viper_New\<lparr>config := map_of ex_file\<rparr>, flags = ex_flags, logged = [],
      loggerLevel = InfoLevel, setCalls = []\<rparr>"

definition ex_host :: Host where
  "ex_host =
     \<lparr>Args = [''falcoctl'', ''install''],
      Environ = ex_environ,
      HomeDir = Inr ''/home/u'',
      Files = (\<lambda>p. if p = ''/home/u/.falcoctl/config.yaml'' then Parses ex_file else Absent),
      ParseLevel = (\<lambda>s. if s = ''debug'' then Inr DebugLevel
                        else if s = ''info'' then Inr InfoLevel
                        else Inl ''not a valid log level'')\<rparr>"

section \<open>The registry after one visit and after all of them\<close>


lemma lookupFlag_Some: "lookupFlag fs n = Some f \<Longrightarrow> f \<in> set fs \<and> Name f = n"
  unfolding lookupFlag_def by (induction fs) (auto split: if_splits)

lemma lookupFlag_None: "lookupFlag fs n = None \<Longrightarrow> n \<notin> Name ` set fs"
  unfolding lookupFlag_def by (induction fs) (auto split: if_splits)

lemma lookupFlag_distinct:
  "distinct (map Name fs) \<Longrightarrow> f \<in> set fs \<Longrightarrow> lookupFlag fs (Name f) = Some f"
  unfolding lookupFlag_def by (induction fs) (auto simp: image_iff)

lemma flags_Set_distinct:
  "distinct (map Name fs) \<Longrightarrow>
   flags_Set n v fs = map (\<lambda>g. if Name g = n then g\<lparr>Value := v, Changed := True\<rparr> else g) fs"
proof (induction fs)
  case Nil
  then show ?case by simp
next
  case (Cons f fs)
  show ?case
  proof (cases "Name f = n")
    case True
    with Cons.prems have "\<forall>g\<in>set fs. Name g \<noteq> n" by (auto simp: image_iff)
    then have "map (\<lambda>g. if Name g = n then g\<lparr>Value := v, Changed := True\<rparr> else g) fs = fs"
      by (simp add: map_idI)
    with True show ?thesis by simp
  next
    case False
    with Cons show ?thesis by simp
  qed
qed

lemma envVarName_defaults [simp]: "envVarName (v\<lparr>defaults := d\<rparr>) k = envVarName v k"
  by (simp add: envVarName_def mergeWithEnvPrefix_def split: option.splits)

lemma getEnv_defaults [simp]: "getEnv (v\<lparr>defaults := d\<rparr>) environ k = getEnv v environ k"
  by (simp add: getEnv_def)

lemma GetString_resolved:
  "lookupFlag fs (Name f) = Some f \<Longrightarrow>
   GetString (SetDefault (Name f) (DefValue f) v) environ fs (Name f) = resolved_value v environ f"
  by (simp add: GetString_def viper_find_def viper_layers_def resolved_value_def SetDefault_def
      split: option.splits)

lemma resolved_value_defaults [simp]:
  "resolved_value (v\<lparr>defaults := d\<rparr>) environ f = resolved_value v environ f"
  by (simp add: resolved_value_def split: option.splits)

lemma visited_defaults [simp]:
  "visited (v\<lparr>defaults := d\<rparr>) environ exclude f = visited v environ exclude f"
  by (simp add: visited_def)

lemma writes_defaults [simp]:
  "writes (v\<lparr>defaults := d\<rparr>) environ exclude f = writes v environ exclude f"
  by (simp add: writes_def)

lemma Name_visited [simp]: "Name (visited v environ exclude f) = Name f"
  by (simp add: visited_def)

lemma DefValue_visited [simp]: "DefValue (visited v environ exclude f) = DefValue f"
  by (simp add: visited_def)

lemma initFlags_visit_flags:
  assumes "distinct (map Name (flags p))" and "lookupFlag (flags p) (Name f) = Some f"
  shows "flags (initFlags_visit environ exclude f p) =
         map (\<lambda>g. if Name g = Name f then visited (viper p) environ exclude g else g) (flags p)"
proof -
  let ?r = "resolved_value (viper p) environ f"
  have only: "g = f" if "g \<in> set (flags p)" "Name g = Name f" for g
  proof -
    from that assms(1) have "lookupFlag (flags p) (Name f) = Some g"
      using lookupFlag_distinct by metis
    with assms(2) show "g = f" by simp
  qed
  show ?thesis
  proof (cases "excluded exclude (Name f) \<or> ?r = DefValue f")
    case True
    have "visited (viper p) environ exclude f = f"
      using True by (auto simp: visited_def)
    then have "map (\<lambda>g. if Name g = Name f then visited (viper p) environ exclude g else g) (flags p)
        = flags p"
      using only by (intro map_idI) auto
    moreover have "flags (initFlags_visit environ exclude f p) = flags p"
      using True by (auto simp: initFlags_visit_def Let_def GetString_resolved [OF assms(2)])
    ultimately show ?thesis by simp
  next
    case False
    then have v: "visited (viper p) environ exclude f = f\<lparr>Value := ?r, Changed := True\<rparr>"
      by (simp add: visited_def)
    have "flags (initFlags_visit environ exclude f p) = flags_Set (Name f) ?r (flags p)"
      using False by (simp add: initFlags_visit_def Let_def GetString_resolved [OF assms(2)] callSet_def)
    also have "\<dots> = map (\<lambda>g. if Name g = Name f then g\<lparr>Value := ?r, Changed := True\<rparr> else g) (flags p)"
      by (rule flags_Set_distinct [OF assms(1)])
    also have "\<dots> = map (\<lambda>g. if Name g = Name f then visited (viper p) environ exclude g else g) (flags p)"
    proof (rule map_cong [OF refl])
      fix g assume "g \<in> set (flags p)"
      then show "(if Name g = Name f then g\<lparr>Value := ?r, Changed := True\<rparr> else g) =
                 (if Name g = Name f then visited (viper p) environ exclude g else g)"
        using only [of g] v by auto
    qed
    finally show ?thesis .
  qed
qed

lemma initFlags_visit_setCalls:
  assumes "lookupFlag (flags p) (Name f) = Some f"
  shows "setCalls (initFlags_visit environ exclude f p) = setCalls p @ writes (viper p) environ exclude f"
  by (simp add: initFlags_visit_def Let_def GetString_resolved [OF assms] callSet_def writes_def)

lemma initFlags_visit_viper:
  "\<exists>d. viper (initFlags_visit environ exclude f p) = (viper p)\<lparr>defaults := d\<rparr>"
proof (cases "excluded exclude (Name f)")
  case True
  then have "viper (initFlags_visit environ exclude f p) = (viper p)\<lparr>defaults := defaults (viper p)\<rparr>"
    by (simp add: initFlags_visit_def)
  then show ?thesis by blast
next
  case False
  then have "viper (initFlags_visit environ exclude f p) =
      (viper p)\<lparr>defaults := (defaults (viper p))(Name f \<mapsto> DefValue f)\<rparr>"
    by (simp add: initFlags_visit_def Let_def callSet_def SetDefault_def)
  then show ?thesis by blast
qed

lemma initFlags_visit_rest:
  "logged (initFlags_visit environ exclude f p) = logged p \<and>
   loggerLevel (initFlags_visit environ exclude f p) = loggerLevel p"
  by (simp add: initFlags_visit_def Let_def callSet_def)


lemma lookupFlag_map_other:
  assumes "\<And>g. Name (h g) = Name g" and "m \<noteq> n"
  shows "lookupFlag (map (\<lambda>g. if Name g = n then h g else g) fs) m = lookupFlag fs m"
  using assms unfolding lookupFlag_def by (induction fs) auto

lemma initFlags_visit_names:
  assumes "distinct (map Name (flags p))" and "lookupFlag (flags p) (Name f) = Some f"
  shows "map Name (flags (initFlags_visit environ exclude f p)) = map Name (flags p)"
  unfolding initFlags_visit_flags [OF assms] by (simp add: comp_def if_distrib cong: if_cong)

lemma initFlags_visit_lookup_other:
  assumes "distinct (map Name (flags p))" and "lookupFlag (flags p) (Name f) = Some f"
    and "m \<noteq> Name f"
  shows "lookupFlag (flags (initFlags_visit environ exclude f p)) m = lookupFlag (flags p) m"
  unfolding initFlags_visit_flags [OF assms(1,2)]
  by (rule lookupFlag_map_other) (simp_all add: assms(3))

lemma visit_fold_flags:
  assumes "distinct (map Name (flags p))" and "distinct ns"
  shows "flags (fold (\<lambda>n q. case lookupFlag (flags q) n of None \<Rightarrow> q
                                 | Some f \<Rightarrow> initFlags_visit environ exclude f q) ns p) =
         map (\<lambda>g. if Name g \<in> set ns then visited (viper p) environ exclude g else g) (flags p)"
  using assms
proof (induction ns arbitrary: p)
  case Nil
  then show ?case by simp
next
  case (Cons n ns)
  let ?step = "\<lambda>n q. case lookupFlag (flags q) n of None \<Rightarrow> q
                                 | Some f \<Rightarrow> initFlags_visit environ exclude f q"
  from Cons.prems have n: "n \<notin> set ns" and dns: "distinct ns" by auto
  show ?case
  proof (cases "lookupFlag (flags p) n")
    case None
    then have "\<forall>g\<in>set (flags p). Name g \<noteq> n" by (auto dest: lookupFlag_None)
    then have "map (\<lambda>g. if Name g \<in> set (n # ns) then visited (viper p) environ exclude g else g) (flags p)
        = map (\<lambda>g. if Name g \<in> set ns then visited (viper p) environ exclude g else g) (flags p)"
      by (intro map_cong [OF refl]) auto
    moreover have "fold ?step (n # ns) p = fold ?step ns p" using None by simp
    ultimately show ?thesis using Cons.IH [OF Cons.prems(1) dns] by simp
  next
    case (Some f)
    then have nf: "Name f = n" by (auto dest: lookupFlag_Some)
    with Some have look: "lookupFlag (flags p) (Name f) = Some f" by simp
    let ?q = "initFlags_visit environ exclude f p"
    have fq: "flags ?q = map (\<lambda>g. if Name g = Name f then visited (viper p) environ exclude g else g) (flags p)"
      by (rule initFlags_visit_flags [OF Cons.prems(1) look])
    have dq: "distinct (map Name (flags ?q))"
      using initFlags_visit_names [OF Cons.prems(1) look] Cons.prems(1) by simp
    obtain d where vq: "viper ?q = (viper p)\<lparr>defaults := d\<rparr>"
      using initFlags_visit_viper by blast
    have "fold ?step (n # ns) p = fold ?step ns ?q" using Some by simp
    then have "flags (fold ?step (n # ns) p) =
        map (\<lambda>g. if Name g \<in> set ns then visited (viper ?q) environ exclude g else g) (flags ?q)"
      using Cons.IH [OF dq dns] by simp
    also have "\<dots> = map (\<lambda>g. if Name g \<in> set (n # ns) then visited (viper p) environ exclude g else g) (flags p)"
      unfolding fq vq map_map using n nf by (intro map_cong [OF refl]) auto
    finally show ?thesis .
  qed
qed

lemma visit_fold_setCalls:
  assumes "distinct (map Name (flags p))" and "distinct ns"
  shows "setCalls (fold (\<lambda>n q. case lookupFlag (flags q) n of None \<Rightarrow> q
                                 | Some f \<Rightarrow> initFlags_visit environ exclude f q) ns p) =
         setCalls p @ concat (map (\<lambda>n. case lookupFlag (flags p) n of None \<Rightarrow> []
                                   | Some g \<Rightarrow> writes (viper p) environ exclude g) ns)"
  using assms
proof (induction ns arbitrary: p)
  case Nil
  then show ?case by simp
next
  case (Cons n ns)
  let ?step = "\<lambda>n q. case lookupFlag (flags q) n of None \<Rightarrow> q
                                 | Some f \<Rightarrow> initFlags_visit environ exclude f q"
  from Cons.prems have n: "n \<notin> set ns" and dns: "distinct ns" by auto
  show ?case
  proof (cases "lookupFlag (flags p) n")
    case None
    then show ?thesis using Cons.IH [OF Cons.prems(1) dns] by simp
  next
    case (Some f)
    then have nf: "Name f = n" by (auto dest: lookupFlag_Some)
    with Some have look: "lookupFlag (flags p) (Name f) = Some f" by simp
    let ?q = "initFlags_visit environ exclude f p"
    have dq: "distinct (map Name (flags ?q))"
      using initFlags_visit_names [OF Cons.prems(1) look] Cons.prems(1) by simp
    obtain d where vq: "viper ?q = (viper p)\<lparr>defaults := d\<rparr>"
      using initFlags_visit_viper by blast
    have same: "(case lookupFlag (flags ?q) m of None \<Rightarrow> [] | Some g \<Rightarrow> writes (viper ?q) environ exclude g)
        = (case lookupFlag (flags p) m of None \<Rightarrow> [] | Some g \<Rightarrow> writes (viper p) environ exclude g)"
      if "m \<in> set ns" for m
    proof -
      from that n nf have "m \<noteq> Name f" by auto
      then show ?thesis
        by (simp add: initFlags_visit_lookup_other [OF Cons.prems(1) look] vq split: option.splits)
    qed
    have "fold ?step (n # ns) p = fold ?step ns ?q" using Some by simp
    then have "setCalls (fold ?step (n # ns) p) =
        setCalls ?q @ concat (map (\<lambda>n. case lookupFlag (flags ?q) n of None \<Rightarrow> []
                                   | Some g \<Rightarrow> writes (viper ?q) environ exclude g) ns)"
      using Cons.IH [OF dq dns] by simp
    also have "map (\<lambda>n. case lookupFlag (flags ?q) n of None \<Rightarrow> []
                                   | Some g \<Rightarrow> writes (viper ?q) environ exclude g) ns
        = map (\<lambda>n. case lookupFlag (flags p) n of None \<Rightarrow> []
                                   | Some g \<Rightarrow> writes (viper p) environ exclude g) ns"
      using same by (intro map_cong [OF refl]) simp
    finally show ?thesis
      using Some by (simp add: initFlags_visit_setCalls [OF look])
  qed
qed

lemma visit_fold_rest:
  "(\<exists>d. viper (fold (\<lambda>n q. case lookupFlag (flags q) n of None \<Rightarrow> q
                                 | Some f \<Rightarrow> initFlags_visit environ exclude f q) ns p) = (viper p)\<lparr>defaults := d\<rparr>) \<and>
   logged (fold (\<lambda>n q. case lookupFlag (flags q) n of None \<Rightarrow> q
                                 | Some f \<Rightarrow> initFlags_visit environ exclude f q) ns p) = logged p \<and>
   loggerLevel (fold (\<lambda>n q. case lookupFlag (flags q) n of None \<Rightarrow> q
                                 | Some f \<Rightarrow> initFlags_visit environ exclude f q) ns p) = loggerLevel p"
proof (induction ns arbitrary: p)
  case Nil
  have "\<exists>d. viper p = (viper p)\<lparr>defaults := d\<rparr>"
    by (rule exI [of _ "defaults (viper p)"]) simp
  then show ?case by simp
next
  case (Cons n ns)
  show ?case
  proof (cases "lookupFlag (flags p) n")
    case None
    then show ?thesis using Cons.IH [of p] by simp
  next
    case (Some f)
    obtain d where "viper (initFlags_visit environ exclude f p) = (viper p)\<lparr>defaults := d\<rparr>"
      using initFlags_visit_viper by blast
    then show ?thesis
      using Some Cons.IH [of "initFlags_visit environ exclude f p"]
      by (auto simp: initFlags_visit_rest)
  qed
qed




lemma initFlags_flags:
  assumes "distinct (map Name (flags p))"
  shows "flags (initFlags environ exclude p) =
         map (visited (BindPFlags (flags p) (viper p)) environ exclude) (flags p)"
proof -
  let ?p = "p\<lparr>viper := BindPFlags (flags p) (viper p)\<rparr>"
  have "flags (initFlags environ exclude p) =
      map (\<lambda>g. if Name g \<in> set (map Name (flags ?p)) then visited (viper ?p) environ exclude g else g)
        (flags ?p)"
    unfolding initFlags_def VisitAll_def
    by (rule visit_fold_flags) (use assms in simp_all)
  also have "\<dots> = map (visited (BindPFlags (flags p) (viper p)) environ exclude) (flags p)"
    by (intro map_cong) auto
  finally show ?thesis .
qed

lemma initFlags_setCalls:
  assumes "distinct (map Name (flags p))"
  shows "setCalls (initFlags environ exclude p) =
         setCalls p @ concat (map (writes (BindPFlags (flags p) (viper p)) environ exclude) (flags p))"
proof -
  let ?p = "p\<lparr>viper := BindPFlags (flags p) (viper p)\<rparr>"
  have "setCalls (initFlags environ exclude p) =
      setCalls ?p @ concat (map (\<lambda>n. case lookupFlag (flags ?p) n of None \<Rightarrow> []
                                   | Some g \<Rightarrow> writes (viper ?p) environ exclude g) (map Name (flags ?p)))"
    unfolding initFlags_def VisitAll_def
    by (rule visit_fold_setCalls) (use assms in simp_all)
  also have "map (\<lambda>n. case lookupFlag (flags ?p) n of None \<Rightarrow> []
                                   | Some g \<Rightarrow> writes (viper ?p) environ exclude g) (map Name (flags ?p))
      = map (writes (BindPFlags (flags p) (viper p)) environ exclude) (flags p)"
    unfolding map_map using assms by (intro map_cong) (auto simp: lookupFlag_distinct)
  finally show ?thesis by simp
qed

lemma initFlags_rest:
  "(\<exists>d. viper (initFlags environ exclude p) = (BindPFlags (flags p) (viper p))\<lparr>defaults := d\<rparr>) \<and>
   logged (initFlags environ exclude p) = logged p \<and>
   loggerLevel (initFlags environ exclude p) = loggerLevel p"
  unfolding initFlags_def VisitAll_def
  using visit_fold_rest [of environ exclude "map Name (flags p)" "p\<lparr>viper := BindPFlags (flags p) (viper p)\<rparr>"]
  by simp

lemma excluded_New_exclude:
  "excluded New_exclude n \<longleftrightarrow> n \<in> {''config'', ''loglevel'', ''help''}"
  by (simp add: excluded_def New_exclude_def)

lemma lookupFlag_map_visited:
  "lookupFlag (map (visited v environ exclude) fs) n = map_option (visited v environ exclude) (lookupFlag fs n)"
  unfolding lookupFlag_def by (induction fs) auto


lemma initFlags_lookup:
  assumes "distinct (map Name (flags p))" and "f \<in> set (flags p)"
  shows "lookupFlag (flags (initFlags environ exclude p)) (Name f) =
         Some (visited (BindPFlags (flags p) (viper p)) environ exclude f)"
  by (simp add: initFlags_flags [OF assms(1)] lookupFlag_map_visited lookupFlag_distinct [OF assms])

lemma resolved_value_bound:
  assumes "f \<in> set fs"
  shows "resolved_value (BindPFlags fs v) environ f =
         (if Changed f then Value f
          else (case getEnv v environ (Name f) of
                  Some e \<Rightarrow> e
                | None \<Rightarrow> (case config v (Name f) of Some c \<Rightarrow> c | None \<Rightarrow> DefValue f)))"
  using assms
  by (simp add: resolved_value_def BindPFlags_def getEnv_def envVarName_def mergeWithEnvPrefix_def
      split: option.splits)

lemma getEnv_initEnv: "getEnv (initEnv v) environ k = environ (envVarName (initEnv v) k)"
  by (simp add: getEnv_def initEnv_def SetEnvKeyReplacer_def SetEnvPrefix_def AutomaticEnv_def)

lemma config_initEnv: "config (initEnv v) = config v"
  by (simp add: initEnv_def SetEnvKeyReplacer_def SetEnvPrefix_def AutomaticEnv_def)

lemma getEnv_BindPFlags [simp]: "getEnv (BindPFlags fs v) environ k = getEnv v environ k"
  by (simp add: getEnv_def BindPFlags_def envVarName_def mergeWithEnvPrefix_def split: option.splits)

lemma config_BindPFlags [simp]: "config (BindPFlags fs v) = config v"
  by (simp add: BindPFlags_def)

lemma parsed_flag_visited: "parsed_flag f \<Longrightarrow> parsed_flag (visited v environ exclude f)"
  by (auto simp: visited_def parsed_flag_def)

lemma visited_twice:
  assumes "f \<in> set fs" and "visited (BindPFlags fs v) environ exclude f \<in> set fs'"
  shows "visited (BindPFlags fs' ((BindPFlags fs v)\<lparr>defaults := d\<rparr>)) environ exclude
           (visited (BindPFlags fs v) environ exclude f) = visited (BindPFlags fs v) environ exclude f"
proof -
  let ?g = "visited (BindPFlags fs v) environ exclude f"
  let ?v2 = "BindPFlags fs' ((BindPFlags fs v)\<lparr>defaults := d\<rparr>)"
  have r1: "resolved_value (BindPFlags fs v) environ f =
      (if Changed f then Value f
          else (case getEnv v environ (Name f) of
                  Some e \<Rightarrow> e
                | None \<Rightarrow> (case config v (Name f) of Some c \<Rightarrow> c | None \<Rightarrow> DefValue f)))"
    by (rule resolved_value_bound [OF assms(1)])
  have r2: "resolved_value ?v2 environ ?g =
      (if Changed ?g then Value ?g
          else (case getEnv v environ (Name f) of
                  Some e \<Rightarrow> e
                | None \<Rightarrow> (case config v (Name f) of Some c \<Rightarrow> c | None \<Rightarrow> DefValue f)))"
    unfolding resolved_value_bound [OF assms(2)] by (simp split: option.splits)
  show ?thesis
  proof (cases "excluded exclude (Name f) \<or> resolved_value (BindPFlags fs v) environ f = DefValue f")
    case True
    then have g: "?g = f" by (auto simp: visited_def)
    show ?thesis
      using True r1 r2 unfolding g by (auto simp: visited_def)
  next
    case False
    then have g: "?g = f\<lparr>Value := resolved_value (BindPFlags fs v) environ f, Changed := True\<rparr>"
      by (simp add: visited_def)
    show ?thesis
      using False r2 unfolding g by (simp add: visited_def)
  qed
qed

lemma initFlags_twice_flags:
  assumes "distinct (map Name (flags p))"
  shows "flags (initFlags environ exclude (initFlags environ exclude p)) =
         flags (initFlags environ exclude p)"
proof -
  let ?p1 = "initFlags environ exclude p"
  let ?v1 = "BindPFlags (flags p) (viper p)"
  have f1: "flags ?p1 = map (visited ?v1 environ exclude) (flags p)"
    by (rule initFlags_flags [OF assms])
  then have d1: "distinct (map Name (flags ?p1))"
    using assms by (simp add: comp_def)
  obtain d where v1: "viper ?p1 = ?v1\<lparr>defaults := d\<rparr>"
    using initFlags_rest by blast
  have "flags (initFlags environ exclude ?p1) =
      map (visited (BindPFlags (flags ?p1) (viper ?p1)) environ exclude) (flags ?p1)"
    by (rule initFlags_flags [OF d1])
  also have "\<dots> = flags ?p1"
  proof (rule map_idI)
    fix g assume g: "g \<in> set (flags ?p1)"
    then obtain f where f: "f \<in> set (flags p)" "g = visited ?v1 environ exclude f"
      unfolding f1 by auto
    show "visited (BindPFlags (flags ?p1) (viper ?p1)) environ exclude g = g"
      unfolding v1 f(2) by (rule visited_twice [OF f(1)]) (use g f(2) in simp)
  qed
  finally show ?thesis .
qed

lemma Fields_assign_fresh: "k \<notin> fst ` set m \<Longrightarrow> Fields_assign k v m = m @ [(k, v)]"
  by (induction m) auto

lemma debugFlags_fold:
  assumes "distinct (map Name fs)" and "fst ` set m \<inter> Name ` set fs = {}"
  shows "fold (\<lambda>f m. if Changed f then Fields_assign (Name f) (Value f) m else m) fs m =
         m @ map (\<lambda>f. (Name f, Value f)) (filter Changed fs)"
  using assms
proof (induction fs arbitrary: m)
  case Nil
  then show ?case by simp
next
  case (Cons f fs)
  show ?case
  proof (cases "Changed f")
    case True
    from Cons.prems(2) have fresh: "Name f \<notin> fst ` set m" by auto
    have "fst ` set (m @ [(Name f, Value f)]) \<inter> Name ` set fs = {}"
      using Cons.prems by auto
    with Cons.IH [of "m @ [(Name f, Value f)]"] Cons.prems(1) True fresh show ?thesis
      by (simp add: Fields_assign_fresh)
  next
    case False
    have "fst ` set m \<inter> Name ` set fs = {}" using Cons.prems(2) by auto
    with Cons.IH [of m] Cons.prems(1) False show ?thesis by simp
  qed
qed

lemma debugFlags_fields_distinct:
  "distinct (map Name fs) \<Longrightarrow>
   debugFlags_fields fs = map (\<lambda>f. (Name f, Value f)) (filter Changed fs)"
  unfolding debugFlags_fields_def using debugFlags_fold [of fs "[]"] by simp

lemma map_of_changed:
  assumes "distinct (map Name fs)" and "g \<in> set fs" and "Changed g"
  shows "map_of (map (\<lambda>f. (Name f, Value f)) (filter Changed fs)) (Name g) = Some (Value g)"
proof -
  have "distinct (map fst (map (\<lambda>f. (Name f, Value f)) (filter Changed fs)))"
    using assms(1) by (simp add: comp_def distinct_map_filter)
  moreover have "(Name g, Value g) \<in> set (map (\<lambda>f. (Name f, Value f)) (filter Changed fs))"
    using assms(2,3) by auto
  ultimately show ?thesis by (rule map_of_is_SomeI)
qed

lemma upper_char_dash: "upper_char c = CHR ''-'' \<longleftrightarrow> c = CHR ''-''"
  by (auto simp: upper_char_def split: if_splits)

lemma upper_char_idem: "upper_char (upper_char c) = upper_char c"
  by (auto simp: upper_char_def split: if_splits)

lemma envVarName_initEnv:
  "envVarName (initEnv v) k =
     ''FALCOCTL_'' @ map (\<lambda>c. if c = CHR ''-'' then CHR ''_'' else upper_char c) k"
proof -
  have "Replace [(CHR ''-'', CHR ''_'')] (map upper_char k) =
      map (\<lambda>c. if c = CHR ''-'' then CHR ''_'' else upper_char c) k"
    by (simp add: Replace_def upper_char_dash)
  moreover have "Replace [(CHR ''-'', CHR ''_'')] (map upper_char ''falcoctl_'') = ''FALCOCTL_''"
    by (simp add: Replace_def upper_char_def)
  ultimately show ?thesis
    by (simp add: envVarName_def initEnv_def SetEnvKeyReplacer_def SetEnvPrefix_def AutomaticEnv_def
        mergeWithEnvPrefix_def strings_ToUpper_def Replace_def)
qed

lemma validate_errors_logged:
  "fold (\<lambda>err. logger_Log ErrorLevel m [(''error'', err)]) errs p =
   p\<lparr>logged := logged p @ map (\<lambda>err. \<lparr>level = ErrorLevel, message = m, data = [(''error'', err)]\<rparr>) errs\<rparr>"
  by (induction errs arbitrary: p) (simp_all add: logger_Log_def)

lemma configCandidates_default:
  assumes "v_configPaths v = []"
  shows "configCandidates
           (SetConfigType ''yaml'' (SetConfigName configName
              (AddConfigPath (filepath_Join home configDir) v))) =
         [home @ ''/.falcoctl/config.yaml'']"
  using assms
  by (simp add: configCandidates_def SetConfigType_def SetConfigName_def AddConfigPath_def
      filepath_Join_def configName_def configDir_def)

lemma ReadInConfig_default:
  assumes "v_configFile v = []" and "v_configPaths v = []"
  shows "ReadInConfig
           (SetConfigType ''yaml'' (SetConfigName configName
              (AddConfigPath (filepath_Join home configDir) v))) files =
         (case files (home @ ''/.falcoctl/config.yaml'') of
            Absent \<Rightarrow> Inl ConfigFileNotFoundError
          | _ \<Rightarrow> loadFile (SetConfigType ''yaml'' (SetConfigName configName
              (AddConfigPath (filepath_Join home configDir) v))) files (home @ ''/.falcoctl/config.yaml''))"
proof -
  let ?v = "SetConfigType ''yaml'' (SetConfigName configName
              (AddConfigPath (filepath_Join home configDir) v))"
  have f: "v_configFile ?v = []"
    using assms(1) by (simp add: SetConfigType_def SetConfigName_def AddConfigPath_def)
  show ?thesis
    unfolding ReadInConfig_def configCandidates_default [OF assms(2)] f
    by (simp split: FileState.splits)
qed

lemma step_cancelled: "ctx s = Cancelled \<Longrightarrow> ctx (step e s) = Cancelled"
  by (cases e) (simp_all split: list.splits)

lemma step_trigger:
  assumes "ctx s = Active" and "ctx (step e s) = Cancelled"
  shows "e = ParentCancel \<or>
         (e = SelectSignal \<and>
          (\<exists>sg rest. sigCh s = sg # rest \<and> infos (step e s) = infos s @ [received sg]))"
  using assms by (cases e) (auto split: list.splits if_splits)

lemma step_exited:
  assumes "task s = Exited" and "ctx s = Cancelled"
  shows "task (step e s) = Exited \<and> ctx (step e s) = Cancelled \<and> infos (step e s) = infos s"
  using assms by (cases e) simp_all

lemma run_exited:
  assumes "task s = Exited" and "ctx s = Cancelled"
  shows "task (run es s) = Exited \<and> ctx (run es s) = Cancelled \<and> infos (run es s) = infos s"
  using assms
proof (induction es arbitrary: s)
  case Nil
  then show ?case by (simp add: run_def)
next
  case (Cons e es)
  from step_exited [OF Cons.prems, of e] Cons.IH [of "step e s"]
  show ?case by (simp add: run_def)
qed

lemma step_inv:
  assumes "(task s = Exited \<longrightarrow> ctx s = Cancelled) \<and> (task s = Blocked \<longrightarrow> infos s = [])"
  shows "(task (step e s) = Exited \<longrightarrow> ctx (step e s) = Cancelled) \<and>
         (task (step e s) = Blocked \<longrightarrow> infos (step e s) = []) \<and>
         (task s = Blocked \<longrightarrow> length (infos (step e s)) \<le> 1) \<and>
         (task s = Exited \<longrightarrow> infos (step e s) = infos s)"
  using assms by (cases e) (auto split: list.splits)

lemma run_inv:
  assumes "(task s = Exited \<longrightarrow> ctx s = Cancelled) \<and> (task s = Blocked \<longrightarrow> infos s = [])"
    and "length (infos s) \<le> 1"
  shows "(task (run es s) = Exited \<longrightarrow> ctx (run es s) = Cancelled) \<and>
         (task (run es s) = Blocked \<longrightarrow> infos (run es s) = []) \<and>
         length (infos (run es s)) \<le> 1"
  using assms
proof (induction es arbitrary: s)
  case Nil
  then show ?case by (simp add: run_def)
next
  case (Cons e es)
  have l: "length (infos (step e s)) \<le> 1"
    using step_inv [OF Cons.prems(1), of e] Cons.prems(2) by (cases "task s") auto
  from Cons.IH [of "step e s"] step_inv [OF Cons.prems(1), of e] l
  show ?case by (simp add: run_def)
qed

lemma concat_map_if:
  "concat (map (\<lambda>x. if P x then [h x] else []) xs) = map h (filter P xs)"
  by (induction xs) simp_all

lemma second_pass_writes:
  assumes "distinct (map Name (flags p))"
  shows "setCalls (initFlags environ exclude (initFlags environ exclude p)) =
         setCalls (initFlags environ exclude p) @
           map (\<lambda>g. (Name g, Value g))
             (filter (\<lambda>g. \<not> excluded exclude (Name g) \<and> Changed g \<and> Value g \<noteq> DefValue g)
                (flags (initFlags environ exclude p)))"
proof -
  let ?p1 = "initFlags environ exclude p"
  let ?v2 = "BindPFlags (flags ?p1) (viper ?p1)"
  let ?P = "\<lambda>g. \<not> excluded exclude (Name g) \<and> Changed g \<and> Value g \<noteq> DefValue g"
  have f1: "flags ?p1 = map (visited (BindPFlags (flags p) (viper p)) environ exclude) (flags p)"
    by (rule initFlags_flags [OF assms])
  then have d1: "distinct (map Name (flags ?p1))"
    using assms by (simp add: comp_def)
  have "flags (initFlags environ exclude ?p1) = flags ?p1"
    by (rule initFlags_twice_flags [OF assms])
  then have fixed: "visited ?v2 environ exclude g = g" if "g \<in> set (flags ?p1)" for g
    using that unfolding initFlags_flags [OF d1] by (metis map_eq_conv map_ident)
  have w: "writes ?v2 environ exclude g = (if ?P g then [(Name g, Value g)] else [])"
    if g: "g \<in> set (flags ?p1)" for g
  proof (cases "excluded exclude (Name g)")
    case True
    then show ?thesis by (simp add: writes_def)
  next
    case False
    let ?r = "resolved_value ?v2 environ g"
    have ch: "Changed g \<Longrightarrow> ?r = Value g"
      by (simp add: resolved_value_bound [OF g])
    show ?thesis
    proof (cases "?r = DefValue g")
      case True
      with ch have "\<not> ?P g" by auto
      with True False show ?thesis by (simp add: writes_def)
    next
      case ne: False
      with fixed [OF g] False have "g\<lparr>Value := ?r, Changed := True\<rparr> = g"
        by (simp add: visited_def)
      then have "Value g = ?r \<and> Changed g"
        by (metis Flag.select_convs(3,4) Flag.surjective Flag.update_convs(3,4))
      with ne False show ?thesis by (simp add: writes_def)
    qed
  qed
  have "concat (map (writes ?v2 environ exclude) (flags ?p1)) =
      concat (map (\<lambda>g. if ?P g then [(Name g, Value g)] else []) (flags ?p1))"
    using w by (simp cong: map_cong)
  also have "\<dots> = map (\<lambda>g. (Name g, Value g)) (filter ?P (flags ?p1))"
    by (rule concat_map_if)
  finally show ?thesis
    using initFlags_setCalls [OF d1, of environ exclude] by simp
qed

lemma initFlags_parsed:
  assumes "distinct (map Name (flags p))" and "list_all parsed_flag (flags p)"
  shows "list_all parsed_flag (flags (initFlags environ exclude p))"
  using assms(2) unfolding initFlags_flags [OF assms(1)] list_all_iff
  by (auto intro: parsed_flag_visited)

lemma writes_not_excluded:
  "(n, v) \<in> set (concat (map (writes w environ exclude) fs)) \<Longrightarrow> \<not> excluded exclude n"
  by (auto simp: writes_def split: if_splits)

section \<open>The claims\<close>

text \<open>
  C2: a flag of the exclusion set (\<^verbatim>\<open>config\<close>, \<^verbatim>\<open>loglevel\<close>, \<^verbatim>\<open>help\<close>) is after
  \<^verbatim>\<open>initFlags\<close> exactly the flag it was before: its value is the command line's when
  the command line set it and its default otherwise, whatever the environment and the
  configuration file hold, and no write of the pass names it.
\<close>

theorem excluded_flag_untouched:
  assumes "distinct (map Name (flags p))" and "f \<in> set (flags p)"
    and "Name f \<in> {''config'', ''loglevel'', ''help''}" and "parsed_flag f"
  shows "lookupFlag (flags (initFlags environ New_exclude p)) (Name f) = Some f \<and>
         map_option Value (lookupFlag (flags (initFlags environ New_exclude p)) (Name f)) =
           Some (if Changed f then Value f else DefValue f) \<and>
         (\<exists>ws. setCalls (initFlags environ New_exclude p) = setCalls p @ ws \<and>
               Name f \<notin> fst ` set ws)"
proof -
  have ex: "excluded New_exclude (Name f)"
    using assms(3) by (simp add: excluded_New_exclude)
  have "lookupFlag (flags (initFlags environ New_exclude p)) (Name f) =
      map_option (visited (BindPFlags (flags p) (viper p)) environ New_exclude) (lookupFlag (flags p) (Name f))"
    by (simp add: initFlags_flags [OF assms(1)] lookupFlag_map_visited)
  also have "\<dots> = Some f"
    using ex by (simp add: lookupFlag_distinct [OF assms(1,2)] visited_def)
  finally have 1: "lookupFlag (flags (initFlags environ New_exclude p)) (Name f) = Some f" .
  have 2: "map_option Value (lookupFlag (flags (initFlags environ New_exclude p)) (Name f)) =
           Some (if Changed f then Value f else DefValue f)"
    using assms(4) 1 by (auto simp: parsed_flag_def)
  let ?ws = "concat (map (writes (BindPFlags (flags p) (viper p)) environ New_exclude) (flags p))"
  have "Name f \<notin> fst ` set ?ws"
    using ex writes_not_excluded [of "Name f" _ "BindPFlags (flags p) (viper p)" environ New_exclude "flags p"]
    by force
  with initFlags_setCalls [OF assms(1)] have 3:
    "\<exists>ws. setCalls (initFlags environ New_exclude p) = setCalls p @ ws \<and> Name f \<notin> fst ` set ws"
    by blast
  from 1 2 3 show ?thesis by blast
qed

theorem excluded_flag_untouched_witness:
  "lookupFlag (flags (initFlags ex_environ New_exclude (ex_process\<lparr>viper := initEnv (viper ex_process)\<rparr>))) ''config''
     = Some \<lparr>Name = ''config'', DefValue = [], Value = [], Changed = False\<rparr> \<and>
   ex_environ ''FALCOCTL_CONFIG'' = Some ''/tmp/c.yaml'' \<and>
   config (viper ex_process) ''config'' = Some ''/etc/c.yaml''"
proof -
  let ?p = "ex_process\<lparr>viper := initEnv (viper ex_process)\<rparr>"
  let ?f = "\<lparr>Name = ''config'', DefValue = [], Value = [], Changed = False\<rparr>"
  have "distinct (map Name (flags ?p))" by (simp add: ex_process_def ex_flags_def)
  moreover have "?f \<in> set (flags ?p)" by (simp add: ex_process_def ex_flags_def)
  moreover have "Name ?f \<in> {''config'', ''loglevel'', ''help''}" by simp
  moreover have "parsed_flag ?f" by (simp add: parsed_flag_def)
  ultimately have "lookupFlag (flags (initFlags ex_environ New_exclude ?p)) (Name ?f) = Some ?f"
    using excluded_flag_untouched [of ?p ?f ex_environ] by blast
  then show ?thesis by (simp add: ex_environ_def ex_process_def ex_file_def)
qed


text \<open>
  C1: for a flag that is not excluded, the value the registry holds after the pass (run
  after \<^verbatim>\<open>initEnv\<close>, as \<^verbatim>\<open>PersistentPreRun\<close> does) is the command line's value
  when the command line set the flag; otherwise the value of the environment variable of
  the flag's name when that is set; otherwise the configuration file's value when it has
  one; otherwise the flag's default.
\<close>

theorem resolved_by_precedence:
  assumes "distinct (map Name (flags p))" and "f \<in> set (flags p)"
    and "\<not> excluded exclude (Name f)" and "parsed_flag f"
  shows "map_option Value
           (lookupFlag (flags (initFlags environ exclude (p\<lparr>viper := initEnv (viper p)\<rparr>))) (Name f)) =
         Some (if Changed f then Value f
               else (case environ (envVarName (initEnv (viper p)) (Name f)) of
                       Some e \<Rightarrow> e
                     | None \<Rightarrow> (case config (viper p) (Name f) of
                                  Some c \<Rightarrow> c
                                | None \<Rightarrow> DefValue f)))"
proof -
  let ?p = "p\<lparr>viper := initEnv (viper p)\<rparr>"
  let ?r = "resolved_value (BindPFlags (flags ?p) (viper ?p)) environ f"
  have d: "distinct (map Name (flags ?p))" and m: "f \<in> set (flags ?p)"
    using assms(1,2) by simp_all
  have r: "?r = (if Changed f then Value f
               else (case environ (envVarName (initEnv (viper p)) (Name f)) of
                       Some e \<Rightarrow> e
                     | None \<Rightarrow> (case config (viper p) (Name f) of
                                  Some c \<Rightarrow> c
                                | None \<Rightarrow> DefValue f)))"
    using m by (simp add: resolved_value_bound getEnv_initEnv config_initEnv split: option.splits)
  have "Value (visited (BindPFlags (flags ?p) (viper ?p)) environ exclude f) = ?r"
    using assms(3,4) by (auto simp: visited_def parsed_flag_def resolved_value_bound [OF assms(2)])
  then show ?thesis
    unfolding initFlags_lookup [OF d m] using r by simp
qed


theorem resolved_by_precedence_witness:
  "map_option Value
     (lookupFlag (flags (initFlags ex_environ New_exclude (ex_process\<lparr>viper := initEnv (viper ex_process)\<rparr>)))
        ''namespace'') = Some ''prod'' \<and>
   map_option Value
     (lookupFlag (flags (initFlags ex_environ New_exclude (ex_process\<lparr>viper := initEnv (viper ex_process)\<rparr>)))
        ''output'') = Some ''json'' \<and>
   map_option Value
     (lookupFlag (flags (initFlags ex_environ New_exclude (ex_process\<lparr>viper := initEnv (viper ex_process)\<rparr>)))
        ''registry-url'') = Some ''https://example.test'' \<and>
   map_option Value
     (lookupFlag (flags (initFlags ex_environ New_exclude (ex_process\<lparr>viper := initEnv (viper ex_process)\<rparr>)))
        ''timeout'') = Some ''30''"
proof -
  have d: "distinct (map Name (flags ex_process))" by (simp add: ex_process_def ex_flags_def)
  have e: "envVarName (initEnv v) ''namespace'' = ''FALCOCTL_NAMESPACE''"
    "envVarName (initEnv v) ''output'' = ''FALCOCTL_OUTPUT''"
    "envVarName (initEnv v) ''registry-url'' = ''FALCOCTL_REGISTRY_URL''"
    "envVarName (initEnv v) ''timeout'' = ''FALCOCTL_TIMEOUT''" for v
    by (simp_all add: envVarName_def initEnv_def SetEnvKeyReplacer_def SetEnvPrefix_def
        AutomaticEnv_def mergeWithEnvPrefix_def strings_ToUpper_def upper_char_def Replace_def)
  have "\<lparr>Name = ''namespace'', DefValue = ''falco'', Value = ''falco'', Changed = False\<rparr> \<in> set (flags ex_process)"
    by (simp add: ex_process_def ex_flags_def)
  note 1 = resolved_by_precedence [OF d this, of New_exclude ex_environ]
  have "\<lparr>Name = ''output'', DefValue = ''text'', Value = ''json'', Changed = True\<rparr> \<in> set (flags ex_process)"
    by (simp add: ex_process_def ex_flags_def)
  note 2 = resolved_by_precedence [OF d this, of New_exclude ex_environ]
  have "\<lparr>Name = ''registry-url'', DefValue = [], Value = [], Changed = False\<rparr> \<in> set (flags ex_process)"
    by (simp add: ex_process_def ex_flags_def)
  note 3 = resolved_by_precedence [OF d this, of New_exclude ex_environ]
  have "\<lparr>Name = ''timeout'', DefValue = ''30'', Value = ''30'', Changed = False\<rparr> \<in> set (flags ex_process)"
    by (simp add: ex_process_def ex_flags_def)
  note 4 = resolved_by_precedence [OF d this, of New_exclude ex_environ]
  have c: "config (viper ex_process) = map_of ex_file" by (simp add: ex_process_def)
  show ?thesis
    using 1 2 3 4
    by (simp add: excluded_New_exclude parsed_flag_def e c ex_environ_def ex_file_def)
qed


text \<open>
  C7: in the callback of \<^verbatim>\<open>initFlags\<close>, for a flag that is not excluded, the
  registry is written (a call of \<^verbatim>\<open>flags.Set\<close>) if and only if the value the store
  returns differs from the flag's default. When it differs, the one write is that value
  under the flag's name; when it is the default, nothing is written and the registry,
  with every flag's changed marker, stays as it was.
\<close>

theorem write_back_iff_differs:
  assumes "\<not> excluded exclude (Name f)"
  shows "(setCalls (initFlags_visit environ exclude f p) \<noteq> setCalls p \<longleftrightarrow>
            GetString (SetDefault (Name f) (DefValue f) (viper p)) environ (flags p) (Name f) \<noteq> DefValue f) \<and>
         (GetString (SetDefault (Name f) (DefValue f) (viper p)) environ (flags p) (Name f) \<noteq> DefValue f \<longrightarrow>
            setCalls (initFlags_visit environ exclude f p) =
              setCalls p @ [(Name f, GetString (SetDefault (Name f) (DefValue f) (viper p)) environ (flags p) (Name f))] \<and>
            flags (initFlags_visit environ exclude f p) =
              flags_Set (Name f) (GetString (SetDefault (Name f) (DefValue f) (viper p)) environ (flags p) (Name f)) (flags p)) \<and>
         (GetString (SetDefault (Name f) (DefValue f) (viper p)) environ (flags p) (Name f) = DefValue f \<longrightarrow>
            setCalls (initFlags_visit environ exclude f p) = setCalls p \<and>
            flags (initFlags_visit environ exclude f p) = flags p)"
  using assms by (simp add: initFlags_visit_def Let_def callSet_def)

theorem write_back_iff_differs_witness:
  "setCalls (initFlags_visit ex_environ New_exclude
       \<lparr>Name = ''namespace'', DefValue = ''falco'', Value = ''falco'', Changed = False\<rparr> ex_process)
     = [(''namespace'', ''prod'')] \<and>
   setCalls (initFlags_visit ex_environ New_exclude
       \<lparr>Name = ''timeout'', DefValue = ''30'', Value = ''30'', Changed = False\<rparr> ex_process) = [] \<and>
   flags (initFlags_visit ex_environ New_exclude
       \<lparr>Name = ''timeout'', DefValue = ''30'', Value = ''30'', Changed = False\<rparr> ex_process) = ex_flags"
proof -
  have g: "GetString (SetDefault ''namespace'' ''falco'' (viper ex_process)) ex_environ ex_flags ''namespace'' = ''prod''"
    "GetString (SetDefault ''timeout'' ''30'' (viper ex_process)) ex_environ ex_flags ''timeout'' = ''30''"
    by (simp_all add: GetString_def viper_find_def viper_layers_def getEnv_def SetDefault_def
        ex_process_def viper_New_def ex_file_def)
  have s: "setCalls ex_process = []" "flags ex_process = ex_flags" by (simp_all add: ex_process_def)
  show ?thesis
    using write_back_iff_differs [of New_exclude
        "\<lparr>Name = ''namespace'', DefValue = ''falco'', Value = ''falco'', Changed = False\<rparr>"
        ex_environ ex_process]
      write_back_iff_differs [of New_exclude
        "\<lparr>Name = ''timeout'', DefValue = ''30'', Value = ''30'', Changed = False\<rparr>"
        ex_environ ex_process]
    by (simp add: excluded_New_exclude g s)
qed

text \<open>
  C10: a flag that is not excluded, that the command line did not set, and whose value
  from the environment or the configuration file differs from its default, holds that
  value after the pass and is marked as changed, as a flag set on the command line is.
\<close>

theorem write_back_marks_changed:
  assumes "distinct (map Name (flags p))" and "f \<in> set (flags p)"
    and "\<not> excluded exclude (Name f)" and "\<not> Changed f"
    and "r = (case environ (envVarName (initEnv (viper p)) (Name f)) of
                Some e \<Rightarrow> e
              | None \<Rightarrow> (case config (viper p) (Name f) of Some c \<Rightarrow> c | None \<Rightarrow> DefValue f))"
    and "r \<noteq> DefValue f"
  shows "lookupFlag (flags (initFlags environ exclude (p\<lparr>viper := initEnv (viper p)\<rparr>))) (Name f) =
           Some (f\<lparr>Value := r, Changed := True\<rparr>)"
proof -
  let ?p = "p\<lparr>viper := initEnv (viper p)\<rparr>"
  have d: "distinct (map Name (flags ?p))" and m: "f \<in> set (flags ?p)"
    using assms(1,2) by simp_all
  have "resolved_value (BindPFlags (flags p) (initEnv (viper p))) environ f = r"
    using assms(4,5)
    by (simp add: resolved_value_bound [OF assms(2)] getEnv_initEnv config_initEnv split: option.splits)
  then have "visited (BindPFlags (flags ?p) (viper ?p)) environ exclude f = f\<lparr>Value := r, Changed := True\<rparr>"
    using assms(3,6) by (simp add: visited_def)
  then show ?thesis
    unfolding initFlags_lookup [OF d m] by simp
qed

theorem write_back_marks_changed_witness:
  "lookupFlag (flags (initFlags ex_environ New_exclude (ex_process\<lparr>viper := initEnv (viper ex_process)\<rparr>)))
     ''registry-url'' =
   Some \<lparr>Name = ''registry-url'', DefValue = [], Value = ''https://example.test'', Changed = True\<rparr>"
proof -
  let ?f = "\<lparr>Name = ''registry-url'', DefValue = [], Value = [], Changed = False\<rparr>"
  have d: "distinct (map Name (flags ex_process))" by (simp add: ex_process_def ex_flags_def)
  have m: "?f \<in> set (flags ex_process)" by (simp add: ex_process_def ex_flags_def)
  have e: "envVarName (initEnv v) ''registry-url'' = ''FALCOCTL_REGISTRY_URL''" for v
    by (simp add: envVarName_def initEnv_def SetEnvKeyReplacer_def SetEnvPrefix_def
        AutomaticEnv_def mergeWithEnvPrefix_def strings_ToUpper_def upper_char_def Replace_def)
  have x: "\<not> excluded New_exclude (Name ?f)" by (simp add: excluded_New_exclude)
  have "lookupFlag (flags (initFlags ex_environ New_exclude (ex_process\<lparr>viper := initEnv (viper ex_process)\<rparr>)))
      (Name ?f) = Some (?f\<lparr>Value := ''https://example.test'', Changed := True\<rparr>)"
    by (rule write_back_marks_changed [OF d m x]) (simp_all add: e ex_environ_def)
  then show ?thesis by simp
qed

text \<open>
  C6, as stated: a second pass over an already resolved registry, with the same sources,
  performs no further writes. It does: the option \<^verbatim>\<open>registry-url\<close> with the empty
  default and \<^verbatim>\<open>FALCOCTL_REGISTRY_URL\<close> set in the environment is written by the first
  pass and written again by the second, since line 185 compares the resolved value with
  the default and not with the value the flag holds.
\<close>

theorem second_pass_writes_again:
  "setCalls (initFlags [''FALCOCTL_REGISTRY_URL'' \<mapsto> ''https://example.test''] New_exclude
      \<lparr>viper = initEnv viper_New,
       flags = [\<lparr>Name = ''registry-url'', DefValue = [], Value = [], Changed = False\<rparr>],
       logged = [], loggerLevel = InfoLevel, setCalls = []\<rparr>) =
     [(''registry-url'', ''https://example.test'')] \<and>
   setCalls (initFlags [''FALCOCTL_REGISTRY_URL'' \<mapsto> ''https://example.test''] New_exclude
      (initFlags [''FALCOCTL_REGISTRY_URL'' \<mapsto> ''https://example.test''] New_exclude
        \<lparr>viper = initEnv viper_New,
         flags = [\<lparr>Name = ''registry-url'', DefValue = [], Value = [], Changed = False\<rparr>],
         logged = [], loggerLevel = InfoLevel, setCalls = []\<rparr>)) =
     [(''registry-url'', ''https://example.test''), (''registry-url'', ''https://example.test'')]"
  by code_simp

text \<open>
  C6, amended: a second pass with the same sources leaves the registry as the first pass
  left it (every flag's value and changed marker). It is not free of writes: its writes
  are, in the registry's order, one for each flag that is not excluded, is marked as
  changed and holds a value other than its default, and each stores the value the flag
  already holds. For a registry that command-line parsing produced, these are the flags
  that are not excluded and whose value after the first pass, the resolved value, differs
  from the default.
\<close>

theorem second_pass_keeps_registry:
  assumes "distinct (map Name (flags p))"
  shows "flags (initFlags environ exclude (initFlags environ exclude p)) =
           flags (initFlags environ exclude p) \<and>
         setCalls (initFlags environ exclude (initFlags environ exclude p)) =
           setCalls (initFlags environ exclude p) @
             map (\<lambda>g. (Name g, Value g))
               (filter (\<lambda>g. \<not> excluded exclude (Name g) \<and> Changed g \<and> Value g \<noteq> DefValue g)
                  (flags (initFlags environ exclude p))) \<and>
         (list_all parsed_flag (flags p) \<longrightarrow>
            setCalls (initFlags environ exclude (initFlags environ exclude p)) =
              setCalls (initFlags environ exclude p) @
                map (\<lambda>g. (Name g, Value g))
                  (filter (\<lambda>g. \<not> excluded exclude (Name g) \<and> Value g \<noteq> DefValue g)
                     (flags (initFlags environ exclude p))))"
proof (intro conjI impI)
  show "flags (initFlags environ exclude (initFlags environ exclude p)) =
           flags (initFlags environ exclude p)"
    by (rule initFlags_twice_flags [OF assms])
next
  show "setCalls (initFlags environ exclude (initFlags environ exclude p)) =
           setCalls (initFlags environ exclude p) @
             map (\<lambda>g. (Name g, Value g))
               (filter (\<lambda>g. \<not> excluded exclude (Name g) \<and> Changed g \<and> Value g \<noteq> DefValue g)
                  (flags (initFlags environ exclude p)))"
    by (rule second_pass_writes [OF assms])
next
  assume "list_all parsed_flag (flags p)"
  then have "list_all parsed_flag (flags (initFlags environ exclude p))"
    by (rule initFlags_parsed [OF assms])
  then have "filter (\<lambda>g. \<not> excluded exclude (Name g) \<and> Changed g \<and> Value g \<noteq> DefValue g)
                  (flags (initFlags environ exclude p)) =
      filter (\<lambda>g. \<not> excluded exclude (Name g) \<and> Value g \<noteq> DefValue g)
                  (flags (initFlags environ exclude p))"
    unfolding list_all_iff by (intro filter_cong) (auto simp: parsed_flag_def)
  with second_pass_writes [OF assms, of environ exclude]
  show "setCalls (initFlags environ exclude (initFlags environ exclude p)) =
              setCalls (initFlags environ exclude p) @
                map (\<lambda>g. (Name g, Value g))
                  (filter (\<lambda>g. \<not> excluded exclude (Name g) \<and> Value g \<noteq> DefValue g)
                     (flags (initFlags environ exclude p)))"
    by simp
qed

theorem second_pass_keeps_registry_witness:
  "flags (initFlags [''FALCOCTL_REGISTRY_URL'' \<mapsto> ''https://example.test''] New_exclude
      (initFlags [''FALCOCTL_REGISTRY_URL'' \<mapsto> ''https://example.test''] New_exclude
        \<lparr>viper = initEnv viper_New,
         flags = [\<lparr>Name = ''registry-url'', DefValue = [], Value = [], Changed = False\<rparr>,
                  \<lparr>Name = ''timeout'', DefValue = ''30'', Value = ''30'', Changed = False\<rparr>],
         logged = [], loggerLevel = InfoLevel, setCalls = []\<rparr>)) =
     [\<lparr>Name = ''registry-url'', DefValue = [], Value = ''https://example.test'', Changed = True\<rparr>,
      \<lparr>Name = ''timeout'', DefValue = ''30'', Value = ''30'', Changed = False\<rparr>] \<and>
   setCalls (initFlags [''FALCOCTL_REGISTRY_URL'' \<mapsto> ''https://example.test''] New_exclude
      (initFlags [''FALCOCTL_REGISTRY_URL'' \<mapsto> ''https://example.test''] New_exclude
        \<lparr>viper = initEnv viper_New,
         flags = [\<lparr>Name = ''registry-url'', DefValue = [], Value = [], Changed = False\<rparr>,
                  \<lparr>Name = ''timeout'', DefValue = ''30'', Value = ''30'', Changed = False\<rparr>],
         logged = [], loggerLevel = InfoLevel, setCalls = []\<rparr>)) =
     [(''registry-url'', ''https://example.test''), (''registry-url'', ''https://example.test'')]"
proof -
  let ?E = "[''FALCOCTL_REGISTRY_URL'' \<mapsto> ''https://example.test'']"
  let ?p = "\<lparr>viper = initEnv viper_New,
         flags = [\<lparr>Name = ''registry-url'', DefValue = [], Value = [], Changed = False\<rparr>,
                  \<lparr>Name = ''timeout'', DefValue = ''30'', Value = ''30'', Changed = False\<rparr>],
         logged = [], loggerLevel = InfoLevel, setCalls = []\<rparr>"
  have d: "distinct (map Name (flags ?p))" by simp
  have w: "list_all parsed_flag (flags ?p)" by (simp add: parsed_flag_def)
  have f1: "flags (initFlags ?E New_exclude ?p) =
     [\<lparr>Name = ''registry-url'', DefValue = [], Value = ''https://example.test'', Changed = True\<rparr>,
      \<lparr>Name = ''timeout'', DefValue = ''30'', Value = ''30'', Changed = False\<rparr>]"
    by code_simp
  have s1: "setCalls (initFlags ?E New_exclude ?p) = [(''registry-url'', ''https://example.test'')]"
    by code_simp
  from second_pass_keeps_registry [OF d, of ?E New_exclude] w
  show ?thesis
    unfolding f1 s1 by (simp add: excluded_New_exclude)
qed

text \<open>
  C9: after the pass, \<^verbatim>\<open>debugFlags\<close> hands the logger one entry at debug level whose
  fields are the flags marked as changed, each with its value; every flag whose value
  after the pass differs from its default is among them, paired with that value.
\<close>

theorem debug_trace_lists_non_defaults:
  assumes "distinct (map Name (flags p))" and "list_all parsed_flag (flags p)"
  shows "\<exists>e. logged (debugFlags (initFlags environ exclude p)) = logged p @ [e] \<and>
             level e = DebugLevel \<and>
             data e = map (\<lambda>f. (Name f, Value f))
                        (filter Changed (flags (debugFlags (initFlags environ exclude p)))) \<and>
             list_all (\<lambda>g. Value g \<noteq> DefValue g \<longrightarrow> map_of (data e) (Name g) = Some (Value g))
               (flags (debugFlags (initFlags environ exclude p)))"
proof -
  let ?q = "initFlags environ exclude p"
  let ?e = "\<lparr>level = DebugLevel, message = ''running with options'',
             data = debugFlags_fields (flags ?q)\<rparr>"
  have fq: "flags ?q = map (visited (BindPFlags (flags p) (viper p)) environ exclude) (flags p)"
    by (rule initFlags_flags [OF assms(1)])
  then have dq: "distinct (map Name (flags ?q))"
    using assms(1) by (simp add: comp_def)
  have pq: "parsed_flag g" if "g \<in> set (flags ?q)" for g
    using that assms(2) unfolding fq list_all_iff by (auto intro: parsed_flag_visited)
  have lq: "logged ?q = logged p" using initFlags_rest by blast
  have 1: "logged (debugFlags ?q) = logged p @ [?e]"
    by (simp add: debugFlags_def logger_Log_def lq)
  have 2: "flags (debugFlags ?q) = flags ?q"
    by (simp add: debugFlags_def logger_Log_def)
  have 3: "data ?e = map (\<lambda>f. (Name f, Value f)) (filter Changed (flags ?q))"
    by (simp add: debugFlags_fields_distinct [OF dq])
  have 4: "list_all (\<lambda>g. Value g \<noteq> DefValue g \<longrightarrow> map_of (data ?e) (Name g) = Some (Value g)) (flags ?q)"
    unfolding list_all_iff
  proof (intro ballI impI)
    fix g assume g: "g \<in> set (flags ?q)" and ne: "Value g \<noteq> DefValue g"
    from pq [OF g] ne have "Changed g" by (simp add: parsed_flag_def)
    with map_of_changed [OF dq g] show "map_of (data ?e) (Name g) = Some (Value g)"
      unfolding 3 by simp
  qed
  have 5: "level ?e = DebugLevel" by simp
  show ?thesis
    unfolding 2
    by (rule exI [of _ ?e]) (use 1 3 4 5 in blast)
qed

theorem debug_trace_lists_non_defaults_witness:
  "\<exists>e. logged (debugFlags (initFlags ex_environ New_exclude
                (ex_process\<lparr>viper := initEnv (viper ex_process)\<rparr>))) = [e] \<and>
       level e = DebugLevel \<and>
       map_of (data e) ''registry-url'' = Some ''https://example.test''"
proof -
  let ?p = "ex_process\<lparr>viper := initEnv (viper ex_process)\<rparr>"
  let ?q = "initFlags ex_environ New_exclude ?p"
  let ?f = "\<lparr>Name = ''registry-url'', DefValue = [], Value = [], Changed = False\<rparr>"
  let ?g = "\<lparr>Name = ''registry-url'', DefValue = [], Value = ''https://example.test'', Changed = True\<rparr>"
  have d: "distinct (map Name (flags ?p))" by (simp add: ex_process_def ex_flags_def)
  have w: "list_all parsed_flag (flags ?p)" by (simp add: ex_process_def ex_flags_def parsed_flag_def)
  have m: "?f \<in> set (flags ?p)" by (simp add: ex_process_def ex_flags_def)
  have n: "envVarName (initEnv v) ''registry-url'' = ''FALCOCTL_REGISTRY_URL''" for v
    by (simp add: envVarName_def initEnv_def SetEnvKeyReplacer_def SetEnvPrefix_def
        AutomaticEnv_def mergeWithEnvPrefix_def strings_ToUpper_def upper_char_def Replace_def)
  have r: "resolved_value (BindPFlags (flags ?p) (viper ?p)) ex_environ ?f = ''https://example.test''"
    unfolding resolved_value_bound [OF m] by (simp add: getEnv_initEnv n ex_environ_def)
  have v: "visited (BindPFlags (flags ?p) (viper ?p)) ex_environ New_exclude ?f = ?g"
    unfolding visited_def r by (simp add: excluded_New_exclude)
  have "lookupFlag (flags ?q) (Name ?f) = Some ?g"
    unfolding initFlags_lookup [OF d m] v by simp
  then have g: "?g \<in> set (flags (debugFlags ?q))"
    by (auto dest: lookupFlag_Some simp: debugFlags_def logger_Log_def)
  from debug_trace_lists_non_defaults [OF d w, of ex_environ New_exclude]
  obtain e where e: "logged (debugFlags ?q) = logged ?p @ [e]" "level e = DebugLevel"
    "list_all (\<lambda>g. Value g \<noteq> DefValue g \<longrightarrow> map_of (data e) (Name g) = Some (Value g))
       (flags (debugFlags ?q))"
    by blast
  from e(3) g have "map_of (data e) (Name ?g) = Some (Value ?g)"
    unfolding list_all_iff by fastforce
  with e(1,2) show ?thesis by (simp add: ex_process_def)
qed

text \<open>
  C8: after \<^verbatim>\<open>initEnv\<close>, the environment variable the store consults for an option
  name is \<^verbatim>\<open>FALCOCTL_\<close> followed by the name with every \<^verbatim>\<open>-\<close> replaced by
  \<^verbatim>\<open>_\<close> and its letters in upper case, nothing else changed; the case of the
  option's name makes no difference to the variable consulted.
\<close>

theorem env_var_name:
  "getEnv (initEnv v) environ k = environ (envVarName (initEnv v) k) \<and>
   envVarName (initEnv v) k =
     ''FALCOCTL_'' @ map (\<lambda>c. if c = CHR ''-'' then CHR ''_'' else upper_char c) k \<and>
   envVarName (initEnv v) (strings_ToUpper k) = envVarName (initEnv v) k"
proof -
  have "map (\<lambda>c. if c = CHR ''-'' then CHR ''_'' else upper_char c) (map upper_char k) =
      map (\<lambda>c. if c = CHR ''-'' then CHR ''_'' else upper_char c) k"
    by (simp add: upper_char_dash upper_char_idem)
  then show ?thesis
    by (simp add: getEnv_initEnv envVarName_initEnv strings_ToUpper_def)
qed

theorem env_var_name_witness:
  "envVarName (initEnv viper_New) ''log-level'' = ''FALCOCTL_LOG_LEVEL'' \<and>
   envVarName (initEnv viper_New) ''Log-Level'' = ''FALCOCTL_LOG_LEVEL''"
  using env_var_name [of viper_New Map.empty "''log-level''"]
    env_var_name [of viper_New Map.empty "''Log-Level''"]
  by (simp add: upper_char_def)

text \<open>
  C3: when \<^verbatim>\<open>Validate\<close> returns a non-empty list of errors,
  \<^verbatim>\<open>PersistentPreRun\<close> ends the process with exit status 1, having logged every
  error of the list, in order, and then the fatal entry. The state it ends in differs
  from the state it started in by these log entries only: the store has no environment
  binding and no file loaded, and no flag has been resolved.
\<close>

theorem validation_gate:
  assumes "Validate configOptions = Some errs" and "errs \<noteq> []"
  shows "PersistentPreRun Validate h configOptions p =
     Inl (1, p\<lparr>logged := logged p @
        map (\<lambda>err. \<lparr>level = ErrorLevel, message = ''error validating config options'',
                     data = [(''error'', err)]\<rparr>) errs @
        [\<lparr>level = FatalLevel, message = ''exiting for validation errors'', data = []\<rparr>]\<rparr>)"
  using assms(1)
  by (simp add: PersistentPreRun_def validateConfig_def andThen_def logger_Fatal_def
      validate_errors_logged logger_Log_def)

theorem validation_gate_witness:
  "PersistentPreRun (\<lambda>c. Some [''bad config path'', ''bad log level'']) ex_host
      \<lparr>ConfigFile = ''x'', LogLevel = ''loud''\<rparr> ex_process =
     Inl (1, ex_process\<lparr>logged :=
        [\<lparr>level = ErrorLevel, message = ''error validating config options'',
           data = [(''error'', ''bad config path'')]\<rparr>,
         \<lparr>level = ErrorLevel, message = ''error validating config options'',
           data = [(''error'', ''bad log level'')]\<rparr>,
         \<lparr>level = FatalLevel, message = ''exiting for validation errors'', data = []\<rparr>]\<rparr>)"
  using validation_gate [of "\<lambda>c. Some [''bad config path'', ''bad log level'']"
      "\<lparr>ConfigFile = ''x'', LogLevel = ''loud''\<rparr>" "[''bad config path'', ''bad log level'']" ex_host ex_process]
  by (simp add: ex_process_def)

text \<open>
  C4: \<^verbatim>\<open>initConfig\<close> on a fresh store. With no explicit path and no file at the
  default location \<^verbatim>\<open>~/.falcoctl/config.yaml\<close>, the process goes on, the store's
  file layer is as it was, and the one entry logged is at debug level. With no explicit
  path and a malformed file at the default location, and with an explicit path whose file
  is malformed, unreadable or missing, the process ends with exit status 1 after a fatal
  log entry.
\<close>

theorem config_file_outcomes:
  "(v_configFile (viper p) = [] \<and> v_configPaths (viper p) = [] \<and> HomeDir h = Inr home \<and>
      Files h (home @ ''/.falcoctl/config.yaml'') = Absent \<longrightarrow>
      (\<exists>q. initConfig h [] p = Inr q \<and> config (viper q) = config (viper p) \<and>
           logged q = logged p @
             [\<lparr>level = DebugLevel, message = ''running without a configuration file'', data = []\<rparr>])) \<and>
   (v_configFile (viper p) = [] \<and> v_configPaths (viper p) = [] \<and> HomeDir h = Inr home \<and>
      Files h (home @ ''/.falcoctl/config.yaml'') = Malformed \<longrightarrow>
      (\<exists>q. initConfig h [] p = Inl (1, q) \<and> level (last (logged q)) = FatalLevel)) \<and>
   (cf \<noteq> [] \<and> Files h cf \<in> {Malformed, Unreadable, Absent} \<longrightarrow>
      (\<exists>q. initConfig h cf p = Inl (1, q) \<and> level (last (logged q)) = FatalLevel))"
proof (intro conjI impI)
  assume a: "v_configFile (viper p) = [] \<and> v_configPaths (viper p) = [] \<and> HomeDir h = Inr home \<and>
      Files h (home @ ''/.falcoctl/config.yaml'') = Absent"
  then have "ReadInConfig (SetConfigType ''yaml'' (SetConfigName configName
              (AddConfigPath (filepath_Join home configDir) (viper p)))) (Files h) =
      Inl ConfigFileNotFoundError"
    by (simp add: ReadInConfig_default)
  with a show "\<exists>q. initConfig h [] p = Inr q \<and> config (viper q) = config (viper p) \<and>
           logged q = logged p @
             [\<lparr>level = DebugLevel, message = ''running without a configuration file'', data = []\<rparr>]"
    by (simp add: initConfig_def andThen_def logger_Log_def SetConfigType_def SetConfigName_def
        AddConfigPath_def)
next
  assume a: "v_configFile (viper p) = [] \<and> v_configPaths (viper p) = [] \<and> HomeDir h = Inr home \<and>
      Files h (home @ ''/.falcoctl/config.yaml'') = Malformed"
  then have "ReadInConfig (SetConfigType ''yaml'' (SetConfigName configName
              (AddConfigPath (filepath_Join home configDir) (viper p)))) (Files h) =
      Inl (OtherError ''malformed configuration file'')"
    by (simp add: ReadInConfig_default loadFile_def)
  with a show "\<exists>q. initConfig h [] p = Inl (1, q) \<and> level (last (logged q)) = FatalLevel"
    by (simp add: initConfig_def andThen_def logger_Fatal_def logger_Log_def)
next
  assume a: "cf \<noteq> [] \<and> Files h cf \<in> {Malformed, Unreadable, Absent}"
  then have "\<exists>e. ReadInConfig (SetConfigFile cf (viper p)) (Files h) = Inl (OtherError e)"
    by (auto simp: ReadInConfig_def SetConfigFile_def loadFile_def)
  with a show "\<exists>q. initConfig h cf p = Inl (1, q) \<and> level (last (logged q)) = FatalLevel"
    by (auto simp: initConfig_def andThen_def logger_Fatal_def logger_Log_def)
qed


theorem config_file_outcomes_witness:
  "(\<exists>q. initConfig (ex_host\<lparr>Files := \<lambda>p. Absent\<rparr>) [] ex_process = Inr q \<and>
        config (viper q) = config (viper ex_process) \<and>
        logged q =
          [\<lparr>level = DebugLevel, message = ''running without a configuration file'', data = []\<rparr>]) \<and>
   (\<exists>q. initConfig
          (ex_host\<lparr>Files := \<lambda>p. if p = ''/home/u/.falcoctl/config.yaml'' then Malformed else Absent\<rparr>)
          [] ex_process = Inl (1, q) \<and> level (last (logged q)) = FatalLevel) \<and>
   (\<exists>q. initConfig (ex_host\<lparr>Files := \<lambda>p. Absent\<rparr>) ''/tmp/c.yaml'' ex_process = Inl (1, q) \<and>
        level (last (logged q)) = FatalLevel)"
proof -
  have v: "v_configFile (viper ex_process) = []" "v_configPaths (viper ex_process) = []"
    "logged ex_process = []"
    by (simp_all add: ex_process_def viper_New_def)
  have h: "HomeDir (ex_host\<lparr>Files := fs\<rparr>) = Inr ''/home/u''" for fs
    by (simp add: ex_host_def)
  show ?thesis
    using config_file_outcomes [where p = ex_process and h = "ex_host\<lparr>Files := \<lambda>p. Absent\<rparr>"
        and home = "''/home/u''" and cf = "''/tmp/c.yaml''"]
      config_file_outcomes [where p = ex_process
        and h = "ex_host\<lparr>Files := \<lambda>p. if p = ''/home/u/.falcoctl/config.yaml'' then Malformed else Absent\<rparr>"
        and home = "''/home/u''" and cf = "''/tmp/c.yaml''"]
    by (simp add: v h)
qed

text \<open>
  C5: the context returned by \<^verbatim>\<open>WithSignals\<close> for an active parent starts active with
  the task blocked. Once cancelled it stays cancelled under every event. The step that
  cancels it is the parent's cancellation or the task's receipt of a delivered signal
  (which the task logs), and each of the two does cancel it. After the parent's
  cancellation the branch \<^verbatim>\<open><-ctx.Done()\<close> makes the task return without logging, and
  no signal delivered afterwards is ever logged. That branch cannot be taken while the
  context is active, the branch \<^verbatim>\<open><-sigCh\<close> cannot be taken while the channel is empty,
  and neither does anything once the task has returned. Once the task has returned, no
  sequence of further events, signals included, changes the context, the task or the
  log; the task has returned only if the context is cancelled, and over any sequence of
  events at most one signal is ever received and logged.
\<close>

theorem signal_context_machine:
  "ctx (WithSignals Active) = Active \<and>
   task (WithSignals Active) = Blocked \<and>
   (ctx s = Cancelled \<longrightarrow> ctx (step e s) = Cancelled) \<and>
   (ctx s = Active \<and> ctx (step e s) = Cancelled \<longrightarrow>
      e = ParentCancel \<or>
      (e = SelectSignal \<and>
       (\<exists>sg rest. sigCh s = sg # rest \<and> infos (step e s) = infos s @ [received sg]))) \<and>
   ctx (step ParentCancel s) = Cancelled \<and>
   (task s = Blocked \<and> sigCh s = [] \<longrightarrow>
      ctx (step SelectSignal (step (Deliver sg) s)) = Cancelled \<and>
      task (step SelectSignal (step (Deliver sg) s)) = Exited \<and>
      infos (step SelectSignal (step (Deliver sg) s)) = infos s @ [received sg]) \<and>
   (task s = Blocked \<and> ctx s = Cancelled \<longrightarrow>
      task (step SelectDone s) = Exited \<and> ctx (step SelectDone s) = Cancelled \<and>
      infos (step SelectDone s) = infos s \<and> sigCh (step SelectDone s) = sigCh s) \<and>
   (task s = Blocked \<longrightarrow>
      task (step SelectDone (step ParentCancel s)) = Exited \<and>
      task (run es (step SelectDone (step ParentCancel s))) = Exited \<and>
      ctx (run es (step SelectDone (step ParentCancel s))) = Cancelled \<and>
      infos (run es (step SelectDone (step ParentCancel s))) = infos s) \<and>
   (ctx s = Active \<longrightarrow> step SelectDone s = s) \<and>
   (sigCh s = [] \<longrightarrow> step SelectSignal s = s) \<and>
   (task s = Exited \<longrightarrow> step SelectDone s = s \<and> step SelectSignal s = s) \<and>
   (task s = Exited \<and> ctx s = Cancelled \<longrightarrow>
      task (run es s) = Exited \<and> ctx (run es s) = Cancelled \<and> infos (run es s) = infos s) \<and>
   (task (run es (WithSignals Active)) = Exited \<longrightarrow> ctx (run es (WithSignals Active)) = Cancelled) \<and>
   length (infos (run es (WithSignals Active))) \<le> 1"
proof -
  have i: "(task (run es (WithSignals Active)) = Exited \<longrightarrow> ctx (run es (WithSignals Active)) = Cancelled) \<and>
      (task (run es (WithSignals Active)) = Blocked \<longrightarrow> infos (run es (WithSignals Active)) = []) \<and>
      length (infos (run es (WithSignals Active))) \<le> 1"
    by (rule run_inv) (simp_all add: WithSignals_def)
  have a: "ctx (WithSignals Active) = Active \<and> task (WithSignals Active) = Blocked"
    by (simp add: WithSignals_def)
  have b: "ctx s = Cancelled \<longrightarrow> ctx (step e s) = Cancelled"
    by (simp add: step_cancelled)
  have c: "ctx s = Active \<and> ctx (step e s) = Cancelled \<longrightarrow>
      e = ParentCancel \<or>
      (e = SelectSignal \<and>
       (\<exists>sg rest. sigCh s = sg # rest \<and> infos (step e s) = infos s @ [received sg]))"
    using step_trigger by blast
  have d: "ctx (step ParentCancel s) = Cancelled" by simp
  have e: "task s = Blocked \<and> sigCh s = [] \<longrightarrow>
      ctx (step SelectSignal (step (Deliver sg) s)) = Cancelled \<and>
      task (step SelectSignal (step (Deliver sg) s)) = Exited \<and>
      infos (step SelectSignal (step (Deliver sg) s)) = infos s @ [received sg]"
    by simp
  have g1: "task s = Blocked \<and> ctx s = Cancelled \<longrightarrow>
      task (step SelectDone s) = Exited \<and> ctx (step SelectDone s) = Cancelled \<and>
      infos (step SelectDone s) = infos s \<and> sigCh (step SelectDone s) = sigCh s"
    by simp
  have g2: "task s = Blocked \<longrightarrow>
      task (step SelectDone (step ParentCancel s)) = Exited \<and>
      task (run es (step SelectDone (step ParentCancel s))) = Exited \<and>
      ctx (run es (step SelectDone (step ParentCancel s))) = Cancelled \<and>
      infos (run es (step SelectDone (step ParentCancel s))) = infos s"
  proof
    assume t: "task s = Blocked"
    let ?s = "step SelectDone (step ParentCancel s)"
    from t have x: "task ?s = Exited" "ctx ?s = Cancelled" "infos ?s = infos s" by simp_all
    from run_exited [OF x(1,2), of es] x
    show "task ?s = Exited \<and> task (run es ?s) = Exited \<and> ctx (run es ?s) = Cancelled \<and>
          infos (run es ?s) = infos s"
      by simp
  qed
  have g3: "ctx s = Active \<longrightarrow> step SelectDone s = s" by simp
  have g4: "sigCh s = [] \<longrightarrow> step SelectSignal s = s" by simp
  have g5: "task s = Exited \<longrightarrow> step SelectDone s = s \<and> step SelectSignal s = s" by simp
  have f: "task s = Exited \<and> ctx s = Cancelled \<longrightarrow>
      task (run es s) = Exited \<and> ctx (run es s) = Cancelled \<and> infos (run es s) = infos s"
    using run_exited by blast
  from a b c d e g1 g2 g3 g4 g5 f i show ?thesis by blast
qed

theorem signal_context_machine_witness:
  "ctx (run [Deliver Interrupt, SelectSignal] (WithSignals Active)) = Cancelled \<and>
   task (run [Deliver Interrupt, SelectSignal] (WithSignals Active)) = Exited \<and>
   infos (run [Deliver Interrupt, SelectSignal] (WithSignals Active)) = [''received SIGINT''] \<and>
   ctx (run [Deliver Interrupt, SelectSignal, Deliver Interrupt, SelectSignal, SelectDone]
          (WithSignals Active)) = Cancelled \<and>
   infos (run [Deliver Interrupt, SelectSignal, Deliver Interrupt, SelectSignal, SelectDone]
          (WithSignals Active)) = [''received SIGINT''] \<and>
   task (run [ParentCancel, SelectDone, Deliver Interrupt, SelectSignal] (WithSignals Active)) = Exited \<and>
   ctx (run [ParentCancel, SelectDone, Deliver Interrupt, SelectSignal] (WithSignals Active)) = Cancelled \<and>
   infos (run [ParentCancel, SelectDone, Deliver Interrupt, SelectSignal] (WithSignals Active)) = []"
proof -
  let ?s = "run [Deliver Interrupt, SelectSignal] (WithSignals Active)"
  have s: "task ?s = Exited" "ctx ?s = Cancelled" "infos ?s = [''received SIGINT'']"
    by (simp_all add: run_def WithSignals_def received_def)
  have r: "run [Deliver Interrupt, SelectSignal, Deliver Interrupt, SelectSignal, SelectDone]
          (WithSignals Active) = run [Deliver Interrupt, SelectSignal, SelectDone] ?s"
    by (simp add: run_def)
  have q: "run [ParentCancel, SelectDone, Deliver Interrupt, SelectSignal] (WithSignals Active) =
      run [Deliver Interrupt, SelectSignal] (step SelectDone (step ParentCancel (WithSignals Active)))"
    by (simp add: run_def)
  have w: "task (WithSignals Active) = Blocked" "infos (WithSignals Active) = []"
    by (simp_all add: WithSignals_def)
  from signal_context_machine [of ?s SelectDone Interrupt "[Deliver Interrupt, SelectSignal, SelectDone]"]
    signal_context_machine [of "WithSignals Active" SelectDone Interrupt "[Deliver Interrupt, SelectSignal]"]
    s w
  show ?thesis unfolding r q by simp
qed

end
